theory Spec2Isabelle
  imports Main "HOL-Library.AList"
begin

unbundle bit_operations_syntax

section \<open>The tunnel server of server.py\<close>

text \<open>
  The class \<open>TunnelServer\<close> of \<open>src/server.py\<close> is embedded function by function.
  Python objects are identified by a handle (a natural number, standing for the identity
  of the object); the three attributes of the server (\<open>unfinished\<close>,
  \<open>record_layers\<close>, \<open>frontends\<close>) are fields of the state. What the collaborators
  answer (the record layer, the frontends, the frontend factory, \<open>select\<close>) is an input
  of each function; what the server calls on them is appended to the field \<open>effects\<close>.
  An exception is a value: a function that can raise returns \<open>Inl (e, s)\<close>, where \<open>s\<close> is
  the state at the moment of the raise (the attributes are mutated in place, so the
  handler of \<open>run\<close> continues from that state), and \<open>Inr s\<close> when it returns.

  The collaborators raise where the code or the interfaces of the spec say they can:
  \<open>receive_packets\<close>, \<open>recv\<close> and \<open>send\<close> of a frontend, the frontend
  factory (\<open>FrontendUnavailableError\<close>) and \<open>select\<close>. The calls \<open>close\<close>,
  \<open>reset\<close>, \<open>send_packet\<close>, \<open>continue_sending\<close>, \<open>accept\<close> and the two
  functions of the packet codec return.
\<close>

subsection \<open>Data\<close>

type_synonym bytes = string

type_synonym obj = nat

text \<open>The two kinds of connection that the server keeps in \<open>unfinished\<close>.\<close>

datatype conn = RecordLayer obj | Frontend obj

text \<open>
  The module \<open>tunnel\<close> is not part of the sources at hand. Its class \<open>StatusControl\<close>
  (four integer constants) and its functions \<open>unpack_packet\<close> and \<open>pack_header\<close> are
  parameters of the model.
\<close>

record status_control =
  syn :: int
  dat :: int
  fin :: int
  rst :: int

record tunnel =
  StatusControl :: status_control
  unpack_packet :: "bytes \<Rightarrow> int \<times> int \<times> bytes"
  pack_header :: "int \<Rightarrow> int \<Rightarrow> bytes"

text \<open>
  Modelled from the spec: the values of \<open>StatusControl\<close> (module \<open>tunnel\<close>, missing).
  The spec calls the control flags independent bits, combinable in one packet: each
  constant is non-zero and no two of them share a bit.
\<close>

definition independent_bits :: "status_control \<Rightarrow> bool" where
  "independent_bits sc \<longleftrightarrow>
     syn sc \<noteq> 0 \<and> dat sc \<noteq> 0 \<and> fin sc \<noteq> 0 \<and> rst sc \<noteq> 0 \<and>
     syn sc AND dat sc = 0 \<and> syn sc AND fin sc = 0 \<and> syn sc AND rst sc = 0 \<and>
     dat sc AND fin sc = 0 \<and> dat sc AND rst sc = 0 \<and> fin sc AND rst sc = 0"

text \<open>
  The exceptions that travel through the server. \<open>Exn m\<close> is an exception raised by
  a collaborator whose text \<open>str(e)\<close> is the byte string \<open>m\<close>;
  \<open>UnicodeError\<close> is what Python raises when a byte string that is not ASCII meets
  a unicode string.
\<close>

datatype exn =
    KeyError
  | SelectError int
  | Exn string
  | UnicodeError

text \<open>
  The file starts with \<open>from __future__ import unicode_literals\<close>, so the literals of
  lines 68 and 191 are unicode strings, and \<open>literal + str(e)\<close> decodes \<open>str(e)\<close>
  as ASCII: it raises when a byte of the text is 128 or more (and \<open>str(e)\<close> itself
  raises when the text is a unicode string with such a character). The text of a
  \<open>KeyError\<close> and of a \<open>select.error\<close> is the \<open>repr\<close> of its arguments and
  the text of a Unicode error is a fixed sentence, all ASCII.
\<close>

fun ascii :: "string \<Rightarrow> bool" where
  "ascii [] = True"
| "ascii (c # cs) = ((of_char c :: nat) < 128 \<and> ascii cs)"

fun concatenates :: "exn \<Rightarrow> bool" where
  "concatenates KeyError = True"
| "concatenates (SelectError errno) = True"
| "concatenates (Exn m) = ascii m"
| "concatenates UnicodeError = True"

datatype critical =
    HashfailError
  | InvalidHeaderError
  | RemoteResetException
  | InsecureClosingError
  | CriticalException

datatype level = DEBUG | INFO | WARNING | ERROR

text \<open>
  A logged message is a constant text, a constant text followed by \<open>str(e)\<close> of an
  exception, or the formatted stack.
\<close>

datatype message =
    Text string
  | TextStr string exn
  | Stack

text \<open>
  The calls of the server on its collaborators, in the order they are made.
  \<open>TransportClose c\<close> is \<open>conn.backend.close()\<close> of record layer \<open>c\<close>,
  \<open>RecordLayerClose c\<close> is \<open>conn.close()\<close>, \<open>BackendClose\<close> is
  \<open>self.backend.close()\<close>, \<open>FrontContinue f\<close> is \<open>conn.send()\<close> without
  argument. \<open>Log\<close> has the level, the message, the layer and the client of \<open>log\<close>
  (the address of a record layer is named by its handle).
\<close>

datatype effect =
    FrontClose obj
  | FrontReset obj
  | FrontSend obj bytes
  | FrontContinue obj
  | SendPacket obj bytes
  | ContinueSending obj
  | RecordLayerClose obj
  | TransportClose obj
  | BackendClose
  | Log level message string "obj option"

text \<open>
  Modelled from the spec: \<open>ObjectDict\<close> (module \<open>util\<close>, missing), the two
  mappings of the Connection Registry, a dictionary whose keys are objects taken by
  identity. It and the inner \<open>{}\<close> are association lists, read with \<open>map_of\<close>,
  written with \<open>AList.update\<close> and \<open>AList.delete\<close>; a lookup or a deletion of a
  missing key raises \<open>KeyError\<close>, which the functions below write out. The order of
  the entries stands for the order in which \<open>keys()\<close> and \<open>values()\<close> yield them,
  which Python leaves open. \<open>ObjectSet\<close> is a list (see below).
  \<open>next_obj\<close> is the identity that the next constructed object gets: a new object is
  distinct from every object constructed before. \<open>effects\<close> and \<open>next_obj\<close> are
  not attributes of the server.
\<close>

record state =
  unfinished :: "conn list"
  record_layers :: "(obj \<times> (int \<times> obj) list) list"
  frontends :: "(obj \<times> int \<times> obj) list"
  next_obj :: obj
  effects :: "effect list"

type_synonym result = "exn \<times> state + state"

text \<open>\<open>TunnelServer.__init__\<close>: the three containers start empty.\<close>

definition init :: state where
  "init = \<lparr>unfinished = [], record_layers = [], frontends = [], next_obj = 0, effects = []\<rparr>"

text \<open>The state a result carries, whether the call returned or raised.\<close>

fun state_of :: "result \<Rightarrow> state" where
  "state_of (Inl (e, s)) = s"
| "state_of (Inr s) = s"

subsection \<open>Containers\<close>

text \<open>
  Modelled from the spec: \<open>ObjectSet\<close> (module \<open>util\<close>, missing), the Pending-Write
  Set with the operations \<open>add\<close>, \<open>remove\<close> and \<open>members\<close>, a set of connections
  by identity. \<open>remove\<close> of an absent member raises \<open>KeyError\<close>, as for a Python set.
\<close>

definition ObjectSet_add :: "conn \<Rightarrow> conn list \<Rightarrow> conn list" where
  "ObjectSet_add c xs = (if c \<in> set xs then xs else xs @ [c])"

definition ObjectSet_remove :: "conn \<Rightarrow> conn list \<Rightarrow> conn list option" where
  "ObjectSet_remove c xs = (if c \<in> set xs then Some (removeAll c xs) else None)"

definition log :: "level \<Rightarrow> message \<Rightarrow> string \<Rightarrow> obj option \<Rightarrow> state \<Rightarrow> state" where
  "log lv msg layer client s = s\<lparr>effects := effects s @ [Log lv msg layer client]\<rparr>"

definition emit :: "effect \<Rightarrow> state \<Rightarrow> state" where
  "emit e s = s\<lparr>effects := effects s @ [e]\<rparr>"

subsection \<open>Closing\<close>

text \<open>
  \<open>_close_frontend\<close> (lines 144-151): the frontend is reset or closed first, then the
  two lookups and the two deletions follow, each of which raises \<open>KeyError\<close> on a
  missing key.
\<close>

definition close_frontend :: "state \<Rightarrow> obj \<Rightarrow> bool \<Rightarrow> result" where
  "close_frontend s front reset =
    (let s1 = emit (if reset then FrontReset front else FrontClose front) s in
     case map_of (frontends s1) front of
       None \<Rightarrow> Inl (KeyError, s1)
     | Some (conn_id, conn) \<Rightarrow>
         (let s2 = s1\<lparr>frontends := AList.delete front (frontends s1)\<rparr> in
          case map_of (record_layers s2) conn of
            None \<Rightarrow> Inl (KeyError, s2)
          | Some conns \<Rightarrow>
              (case map_of conns conn_id of
                 None \<Rightarrow> Inl (KeyError, s2)
               | Some _ \<Rightarrow>
                   Inr (s2\<lparr>record_layers :=
                     AList.update conn (AList.delete conn_id conns) (record_layers s2)\<rparr>))))"

text \<open>The loop of \<open>_clean_record_layer\<close> over the copied list of values.\<close>

fun close_frontends :: "state \<Rightarrow> obj list \<Rightarrow> result" where
  "close_frontends s [] = Inr s"
| "close_frontends s (front # fronts) =
     (case close_frontend s front False of
        Inl e \<Rightarrow> Inl e
      | Inr s' \<Rightarrow> close_frontends s' fronts)"

text \<open>\<open>_clean_record_layer\<close> (lines 139-142).\<close>

definition clean_record_layer :: "state \<Rightarrow> obj \<Rightarrow> result" where
  "clean_record_layer s conn =
    (case map_of (record_layers s) conn of
       None \<Rightarrow> Inl (KeyError, s)
     | Some conns \<Rightarrow>
         (case close_frontends s (map snd conns) of
            Inl e \<Rightarrow> Inl e
          | Inr s' \<Rightarrow>
              (case map_of (record_layers s') conn of
                 None \<Rightarrow> Inl (KeyError, s')
               | Some _ \<Rightarrow>
                   Inr (s'\<lparr>record_layers := AList.delete conn (record_layers s')\<rparr>))))"

subsection \<open>Packets from a record layer\<close>

text \<open>
  What the collaborators answer while one packet is processed: the frontend factory
  (called at most once), \<open>send\<close> of the frontend (at most once) and \<open>send_packet\<close>
  of the record layer (at most once).
\<close>

datatype factory_result = Constructed | FrontendUnavailableError string

datatype send_result = Sent bool | SendRaises string

record packet_env =
  new_frontend :: factory_result
  front_send :: send_result
  send_packet_flushed :: bool

text \<open>\<open>_send_packet\<close> (lines 180-183); \<open>flushed\<close> is what \<open>conn.send_packet\<close> returns.\<close>

definition send_packet :: "tunnel \<Rightarrow> state \<Rightarrow> obj \<Rightarrow> int \<Rightarrow> int \<Rightarrow> bytes \<Rightarrow> bool \<Rightarrow> state" where
  "send_packet tn s conn conn_id control data flushed =
    (let header = pack_header tn control conn_id;
         s1 = emit (SendPacket conn (header @ data)) s
     in if \<not> flushed
        then s1\<lparr>unfinished := ObjectSet_add (RecordLayer conn) (unfinished s1)\<rparr>
        else s1)"

text \<open>
  The local variable \<open>conns\<close> of \<open>_process_packet\<close> is the dictionary object stored
  under \<open>conn\<close>, which \<open>_close_frontend\<close> mutates in place: every use of \<open>conns\<close>
  reads the current dictionary of \<open>conn\<close>.
\<close>

definition conns_of :: "state \<Rightarrow> obj \<Rightarrow> (int \<times> obj) list" where
  "conns_of s conn = (case map_of (record_layers s) conn of None \<Rightarrow> [] | Some conns \<Rightarrow> conns)"

text \<open>Lines 176-178: the \<open>fin\<close> flag.\<close>

definition process_packet_fin :: "tunnel \<Rightarrow> state \<Rightarrow> obj \<Rightarrow> int \<Rightarrow> int \<Rightarrow> result" where
  "process_packet_fin tn s conn control conn_id =
    (if control AND fin (StatusControl tn) \<noteq> 0
     then (case map_of (conns_of s conn) conn_id of
             None \<Rightarrow> Inl (KeyError, s)
           | Some front \<Rightarrow> close_frontend s front False)
     else Inr s)"

text \<open>Lines 172-178: the \<open>dat\<close> flag, then the \<open>fin\<close> flag.\<close>

definition process_packet_dat :: "tunnel \<Rightarrow> state \<Rightarrow> obj \<Rightarrow> int \<Rightarrow> int \<Rightarrow> bytes \<Rightarrow> packet_env \<Rightarrow> result" where
  "process_packet_dat tn s conn control conn_id data env =
    (if control AND dat (StatusControl tn) \<noteq> 0
     then (case map_of (conns_of s conn) conn_id of
             None \<Rightarrow> Inl (KeyError, s)
           | Some front \<Rightarrow>
               (let s1 = emit (FrontSend front data) s in
                case front_send env of
                  SendRaises m \<Rightarrow> Inl (Exn m, s1)
                | Sent flushed \<Rightarrow>
                    process_packet_fin tn
                      (if \<not> flushed
                       then s1\<lparr>unfinished := ObjectSet_add (Frontend front) (unfinished s1)\<rparr>
                       else s1)
                      conn control conn_id))
     else process_packet_fin tn s conn control conn_id)"

text \<open>
  Lines 164-171, then the rest: the factory is called; when it raises
  \<open>FrontendUnavailableError\<close> the packet ends with a \<open>rst\<close> sent back, otherwise
  the new frontend is stored in both dictionaries.
\<close>

definition process_packet_new :: "tunnel \<Rightarrow> state \<Rightarrow> obj \<Rightarrow> int \<Rightarrow> int \<Rightarrow> bytes \<Rightarrow> packet_env \<Rightarrow> result" where
  "process_packet_new tn s conn control conn_id data env =
    (case new_frontend env of
       FrontendUnavailableError m \<Rightarrow>
         Inr (send_packet tn (log ERROR (Text m) ''frontend'' (Some conn) s)
                conn conn_id (rst (StatusControl tn)) [] (send_packet_flushed env))
     | Constructed \<Rightarrow>
         (let front = next_obj s;
              s1 = s\<lparr>next_obj := Suc front\<rparr>;
              s2 = s1\<lparr>record_layers :=
                      AList.update conn (AList.update conn_id front (conns_of s1 conn))
                        (record_layers s1)\<rparr>;
              s3 = s2\<lparr>frontends := AList.update front (conn_id, conn) (frontends s2)\<rparr>
          in process_packet_dat tn s3 conn control conn_id data env))"

text \<open>Lines 160-163, then the rest: the \<open>syn\<close> flag closes the frontend stored under the id.\<close>

definition process_packet_syn :: "tunnel \<Rightarrow> state \<Rightarrow> obj \<Rightarrow> int \<Rightarrow> int \<Rightarrow> bytes \<Rightarrow> packet_env \<Rightarrow> result" where
  "process_packet_syn tn s conn control conn_id data env =
    (if control AND syn (StatusControl tn) \<noteq> 0
     then (case (case map_of (conns_of s conn) conn_id of
                   None \<Rightarrow> Inr s
                 | Some old \<Rightarrow> close_frontend s old False) of
             Inl e \<Rightarrow> Inl e
           | Inr s1 \<Rightarrow> process_packet_new tn s1 conn control conn_id data env)
     else process_packet_dat tn s conn control conn_id data env)"

text \<open>\<open>_process_packet\<close> (lines 153-178).\<close>

definition process_packet :: "tunnel \<Rightarrow> state \<Rightarrow> obj \<Rightarrow> bytes \<Rightarrow> packet_env \<Rightarrow> result" where
  "process_packet tn s conn packet env =
    (case unpack_packet tn packet of
       (control, conn_id, data) \<Rightarrow>
         (case map_of (record_layers s) conn of
            None \<Rightarrow> Inl (KeyError, s)
          | Some conns \<Rightarrow>
              if control AND rst (StatusControl tn) \<noteq> 0
              then (case map_of conns conn_id of
                      None \<Rightarrow> Inl (KeyError, s)
                    | Some front \<Rightarrow> close_frontend s front True)
              else process_packet_syn tn s conn control conn_id data env))"

text \<open>The loop of lines 136-137 over the packets of one batch.\<close>

fun process_packets :: "tunnel \<Rightarrow> state \<Rightarrow> obj \<Rightarrow> (bytes \<times> packet_env) list \<Rightarrow> result" where
  "process_packets tn s conn [] = Inr s"
| "process_packets tn s conn ((packet, env) # packets) =
     (case process_packet tn s conn packet env of
        Inl e \<Rightarrow> Inl e
      | Inr s' \<Rightarrow> process_packets tn s' conn packets)"

text \<open>
  What \<open>conn.receive_packets()\<close> does: it raises a \<open>CriticalException\<close>, it raises
  something else, it returns \<open>None\<close>, or it returns the packets (each with the answers
  of the collaborators while it is processed).
\<close>

datatype receive_result =
    ReceiveCritical critical
  | ReceiveRaises exn
  | ReceiveNone
  | ReceivePackets "(bytes \<times> packet_env) list"

text \<open>The chain of \<open>isinstance\<close> tests of lines 116-125.\<close>

fun critical_msg :: "critical \<Rightarrow> string" where
  "critical_msg HashfailError = ''detect a wrong hash''"
| "critical_msg InvalidHeaderError = ''detect an invalid header''"
| "critical_msg RemoteResetException = ''remote host reset the connection''"
| "critical_msg InsecureClosingError = ''detect an insecure closing''"
| "critical_msg CriticalException = ''detect a critical exception''"

text \<open>\<open>_process_record_layer\<close> (lines 108-137).\<close>

definition process_record_layer :: "tunnel \<Rightarrow> state \<Rightarrow> obj \<Rightarrow> receive_result \<Rightarrow> result" where
  "process_record_layer tn s conn received =
    (case received of
       ReceiveCritical e \<Rightarrow>
         (case clean_record_layer s conn of
            Inl x \<Rightarrow> Inl x
          | Inr s1 \<Rightarrow>
              Inr (log WARNING (Text (critical_msg e)) ''record'' (Some conn)
                     (emit (TransportClose conn) s1)))
     | ReceiveRaises x \<Rightarrow> Inl (x, s)
     | ReceiveNone \<Rightarrow>
         (case clean_record_layer s conn of
            Inl x \<Rightarrow> Inl x
          | Inr s1 \<Rightarrow>
              Inr (log INFO (Text ''disconnected'') ''record'' (Some conn)
                     (emit (TransportClose conn) (emit (RecordLayerClose conn) s1))))
     | ReceivePackets packets \<Rightarrow> process_packets tn s conn packets)"

subsection \<open>Frontends, the backend, pending writes\<close>

text \<open>
  What \<open>front.recv()\<close> does: it returns bytes (\<open>RecvData []\<close> is \<open>b""\<close>), it returns
  \<open>None\<close>, or it raises.
\<close>

datatype recv_result = RecvData bytes | RecvNone | RecvRaises string

text \<open>
  \<open>_process_frontend\<close> (lines 185-206); \<open>flushed\<close> is what \<open>conn.send_packet\<close>
  returns if it is called. The first \<open>case\<close> is the \<open>try\<close> statement, which leaves
  \<open>data\<close> (\<open>None\<close> or bytes) and \<open>control\<close>. In its handler the lookup of
  line 190 comes first, then the concatenation of line 191, which raises out of the
  handler when the text of the exception is not ASCII, before anything is logged and
  before \<open>control\<close> is set.
\<close>

definition process_frontend :: "tunnel \<Rightarrow> state \<Rightarrow> obj \<Rightarrow> recv_result \<Rightarrow> bool \<Rightarrow> result" where
  "process_frontend tn s front received flushed =
    (case (case received of
             RecvData d \<Rightarrow> Inr (s, Some d, 0)
           | RecvNone \<Rightarrow> Inr (s, None, 0)
           | RecvRaises m \<Rightarrow>
               (case map_of (frontends s) front of
                  None \<Rightarrow> Inl (KeyError, s)
                | Some (_, conn) \<Rightarrow>
                    if concatenates (Exn m)
                    then Inr (log ERROR (TextStr ''unknown error: '' (Exn m)) ''frontend''
                                (Some conn) s,
                              Some [], rst (StatusControl tn))
                    else Inl (UnicodeError, s))) of
       Inl x \<Rightarrow> Inl x
     | Inr (s1, data0, control0) \<Rightarrow>
         (case (case data0 of
                  None \<Rightarrow> ([], fin (StatusControl tn))
                | Some d \<Rightarrow> if d \<noteq> [] then (d, dat (StatusControl tn)) else (d, control0)) of
            (data, control) \<Rightarrow>
              if control \<noteq> 0
              then (case map_of (frontends s1) front of
                      None \<Rightarrow> Inl (KeyError, s1)
                    | Some (conn_id, conn) \<Rightarrow>
                        (let s2 = send_packet tn s1 conn conn_id control data flushed in
                         if control AND rst (StatusControl tn) \<noteq> 0
                         then close_frontend s2 front True
                         else if control AND fin (StatusControl tn) \<noteq> 0
                         then close_frontend s2 front False
                         else Inr s2))
              else Inr s1))"

text \<open>
  \<open>_process_backend\<close> (lines 101-106): the record layer constructed around the
  accepted connection is a new object.
\<close>

definition process_backend :: "state \<Rightarrow> state" where
  "process_backend s =
    (let record_layer = next_obj s;
         s1 = s\<lparr>next_obj := Suc record_layer\<rparr>;
         s2 = s1\<lparr>record_layers := AList.update record_layer [] (record_layers s1)\<rparr>
     in log INFO (Text ''connected'') ''record'' (Some record_layer) s2)"

text \<open>
  \<open>_process_sending\<close> (lines 208-214); \<open>is_finished\<close> is what
  \<open>continue_sending\<close> or \<open>send\<close> returns.
\<close>

definition process_sending :: "state \<Rightarrow> conn \<Rightarrow> bool \<Rightarrow> result" where
  "process_sending s conn is_finished =
    (let s1 = emit (case conn of RecordLayer c \<Rightarrow> ContinueSending c
                               | Frontend f \<Rightarrow> FrontContinue f) s
     in if is_finished
        then (case ObjectSet_remove conn (unfinished s1) of
                None \<Rightarrow> Inl (KeyError, s1)
              | Some u \<Rightarrow> Inr (s1\<lparr>unfinished := u\<rparr>))
        else Inr s1)"

subsection \<open>The event loop\<close>

text \<open>
  A member of the list \<open>r\<close> that \<open>select\<close> returns, with what the collaborators answer
  while it is served: the backend, a record layer, or a frontend.
\<close>

datatype readable =
    BackendReady
  | RecordLayerReady obj receive_result
  | FrontendReady obj recv_result bool

datatype select_result =
    SelectRaises int
  | Selected "readable list" "(conn \<times> bool) list"

definition EINTR :: int where
  "EINTR = 4"

text \<open>The list of connections that \<open>_process\<close> asks \<open>select\<close> to watch for writing (line 83).\<close>

definition wlist :: "state \<Rightarrow> conn list" where
  "wlist s = unfinished s"

fun process_readable :: "tunnel \<Rightarrow> state \<Rightarrow> readable list \<Rightarrow> result" where
  "process_readable tn s [] = Inr s"
| "process_readable tn s (c # r) =
     (case (case c of
              BackendReady \<Rightarrow> Inr (process_backend s)
            | RecordLayerReady conn received \<Rightarrow> process_record_layer tn s conn received
            | FrontendReady front received flushed \<Rightarrow>
                process_frontend tn s front received flushed) of
        Inl x \<Rightarrow> Inl x
      | Inr s' \<Rightarrow> process_readable tn s' r)"

fun process_writable :: "state \<Rightarrow> (conn \<times> bool) list \<Rightarrow> result" where
  "process_writable s [] = Inr s"
| "process_writable s ((conn, is_finished) # w) =
     (case process_sending s conn is_finished of
        Inl x \<Rightarrow> Inl x
      | Inr s' \<Rightarrow> process_writable s' w)"

text \<open>\<open>_process\<close> (lines 78-99).\<close>

definition process :: "tunnel \<Rightarrow> state \<Rightarrow> select_result \<Rightarrow> result" where
  "process tn s selected =
    (case selected of
       SelectRaises errno \<Rightarrow> if errno = EINTR then Inr s else Inl (SelectError errno, s)
     | Selected r w \<Rightarrow>
         (case process_readable tn s r of
            Inl x \<Rightarrow> Inl x
          | Inr s' \<Rightarrow> process_writable s' w))"

text \<open>
  One turn of the loop of \<open>run\<close> (lines 64-70): an exception is logged, unless the
  concatenation of line 68 raises in the handler, which ends \<open>run\<close>.
\<close>

definition run_iteration :: "tunnel \<Rightarrow> state \<Rightarrow> select_result \<Rightarrow> result" where
  "run_iteration tn s selected =
    (case process tn s selected of
       Inr s' \<Rightarrow> Inr s'
     | Inl (e, s') \<Rightarrow>
         if concatenates e
         then Inr (log DEBUG Stack ''tunnel'' None
                (log ERROR (TextStr ''unknown exception occurred: '' e) ''tunnel'' None s'))
         else Inl (UnicodeError, s'))"

text \<open>
  The loop of \<open>run\<close> turns until a signal handler clears \<open>running\<close>; the list holds
  what \<open>select\<close> returned in each turn made before that. An exception that leaves
  a turn leaves the loop.
\<close>

fun run_loop :: "tunnel \<Rightarrow> state \<Rightarrow> select_result list \<Rightarrow> result" where
  "run_loop tn s [] = Inr s"
| "run_loop tn s (selected # rest) =
     (case run_iteration tn s selected of
        Inl x \<Rightarrow> Inl x
      | Inr s' \<Rightarrow> run_loop tn s' rest)"

text \<open>Lines 71-76: the record layers are closed one after the other.\<close>

fun run_close :: "state \<Rightarrow> obj list \<Rightarrow> result" where
  "run_close s [] = Inr (emit BackendClose s)"
| "run_close s (conn # conns) =
     (case clean_record_layer s conn of
        Inl x \<Rightarrow> Inl x
      | Inr s' \<Rightarrow> run_close (emit (TransportClose conn) (emit (RecordLayerClose conn) s')) conns)"

text \<open>\<open>run\<close> (lines 62-76).\<close>

definition run :: "tunnel \<Rightarrow> state \<Rightarrow> select_result list \<Rightarrow> result" where
  "run tn s turns =
    (case run_loop tn s turns of
       Inl x \<Rightarrow> Inl x
     | Inr s' \<Rightarrow> run_close s' (map fst (record_layers s')))"

subsection \<open>The registry as an invariant\<close>

text \<open>
  The two dictionaries mirror each other: a frontend is stored under a connection id of a
  record layer exactly when the record layer and the id are stored under the frontend.
  Keys are stored once, every stored object has been constructed, and \<open>unfinished\<close>
  holds a connection once.
\<close>

definition consistent :: "state \<Rightarrow> bool" where
  "consistent s \<longleftrightarrow>
     distinct (map fst (record_layers s)) \<and>
     distinct (map fst (frontends s)) \<and>
     distinct (unfinished s) \<and>
     (\<forall>(conn, conns) \<in> set (record_layers s).
         conn < next_obj s \<and> distinct (map fst conns) \<and>
         (\<forall>(conn_id, front) \<in> set conns.
             map_of (frontends s) front = Some (conn_id, conn))) \<and>
     (\<forall>(front, conn_id, conn) \<in> set (frontends s).
         front < next_obj s \<and> map_of (conns_of s conn) conn_id = Some front)"

text \<open>
  The registry has no entry for the record layer \<open>conn\<close> and none for a frontend of
  \<open>fronts\<close>: \<open>conn\<close> is not a key of \<open>record_layers\<close>, no dictionary in it stores
  one of \<open>fronts\<close>, and \<open>frontends\<close> has no key in \<open>fronts\<close> and no value that
  names \<open>conn\<close>.
\<close>

definition unreferenced :: "obj \<Rightarrow> obj list \<Rightarrow> state \<Rightarrow> bool" where
  "unreferenced conn fronts s \<longleftrightarrow>
     conn \<notin> fst ` set (record_layers s) \<and>
     (\<forall>(c, conns) \<in> set (record_layers s). \<forall>(conn_id, front) \<in> set conns. front \<notin> set fronts) \<and>
     (\<forall>(front, conn_id, c) \<in> set (frontends s). c \<noteq> conn \<and> front \<notin> set fronts)"

subsection \<open>An instance for evaluation\<close>

text \<open>
  A sample of the module \<open>tunnel\<close>, used to run the functions on concrete inputs:
  four flags on four bits, and a header of two bytes (the flags, the connection id).
\<close>

definition example_unpack :: "bytes \<Rightarrow> int \<times> int \<times> bytes" where
  "example_unpack packet =
     (case packet of c # i # data \<Rightarrow> (of_char c, of_char i, data) | _ \<Rightarrow> (0, 0, []))"

definition example_pack :: "int \<Rightarrow> int \<Rightarrow> bytes" where
  "example_pack control conn_id = [char_of control, char_of conn_id]"

definition example_tunnel :: tunnel where
  "example_tunnel =
     \<lparr>StatusControl = \<lparr>syn = 1, dat = 2, fin = 4, rst = 8\<rparr>,
      unpack_packet = example_unpack, pack_header = example_pack\<rparr>"

text \<open>No collaborator fails: the factory constructs, every send is complete.\<close>

definition quiet :: packet_env where
  "quiet = \<lparr>new_frontend = Constructed, front_send = Sent True, send_packet_flushed = True\<rparr>"

text \<open>
  Two record layers: record layer 0 with the frontends 1 and 2 under the ids 1 and 2,
  record layer 3 with the frontend 4 under the id 1. Nothing waits for sending.
\<close>

definition example_open :: state where
  "example_open =
     \<lparr>unfinished = [],
      record_layers = [(0, [(1, 1), (2, 2)]), (3, [(1, 4)])],
      frontends = [(1, 1, 0), (2, 2, 0), (4, 1, 3)],
      next_obj = 5, effects = []\<rparr>"

text \<open>
  The turns of the loop that accept a record layer and then receive a packet with
  \<open>syn\<close> and \<open>dat\<close> for the id 1 whose payload the new frontend takes only in part.
\<close>

definition example_turns :: "select_result list" where
  "example_turns =
     [Selected [BackendReady] [],
      Selected [RecordLayerReady 0 (ReceivePackets
         [(CHR 0x03 # CHR 0x01 # ''hi'', quiet\<lparr>front_send := Sent False\<rparr>)])] []]"

text \<open>The state after these turns: the frontend 1 waits in \<open>unfinished\<close>.\<close>

definition example_pending :: state where
  "example_pending =
     \<lparr>unfinished = [Frontend 1],
      record_layers = [(0, [(1, 1)])],
      frontends = [(1, 1, 0)],
      next_obj = 2,
      effects = [Log INFO (Text ''connected'') ''record'' (Some 0), FrontSend 1 ''hi'']\<rparr>"

section \<open>The invariant is kept\<close>

text \<open>
  The invariant in terms of lookups, the fields that the logging functions leave alone,
  and then, function by function, that the state a call returns or raises with is
  consistent when the state it got was.
\<close>

lemma consistent_maps:
  "consistent s \<longleftrightarrow>
     distinct (map fst (record_layers s)) \<and>
     distinct (map fst (frontends s)) \<and>
     distinct (unfinished s) \<and>
     (\<forall>conn conns. map_of (record_layers s) conn = Some conns \<longrightarrow>
         conn < next_obj s \<and> distinct (map fst conns) \<and>
         (\<forall>cid f. map_of conns cid = Some f \<longrightarrow> map_of (frontends s) f = Some (cid, conn))) \<and>
     (\<forall>f cid conn. map_of (frontends s) f = Some (cid, conn) \<longrightarrow>
         f < next_obj s \<and> map_of (conns_of s conn) cid = Some f)"
  (is "_ \<longleftrightarrow> ?R")
proof
  assume c: "consistent s"
  have d: "distinct (map fst (record_layers s))" "distinct (map fst (frontends s))"
    using c by (simp_all add: consistent_def)
  have a: "conn < next_obj s \<and> distinct (map fst conns) \<and>
         (\<forall>cid f. map_of conns cid = Some f \<longrightarrow> map_of (frontends s) f = Some (cid, conn))"
    if "map_of (record_layers s) conn = Some conns" for conn conns
  proof -
    from that have "(conn, conns) \<in> set (record_layers s)" by (rule map_of_SomeD)
    with c have "conn < next_obj s \<and> distinct (map fst conns) \<and>
       (\<forall>(conn_id, front) \<in> set conns. map_of (frontends s) front = Some (conn_id, conn))"
      unfolding consistent_def by blast
    then show ?thesis by (auto dest!: map_of_SomeD)
  qed
  have b: "f < next_obj s \<and> map_of (conns_of s conn) cid = Some f"
    if "map_of (frontends s) f = Some (cid, conn)" for f cid conn
  proof -
    from that have "(f, cid, conn) \<in> set (frontends s)" by (rule map_of_SomeD)
    with c show ?thesis unfolding consistent_def by blast
  qed
  from c a b show ?R by (simp add: consistent_def)
next
  assume r: ?R
  then have d: "distinct (map fst (record_layers s))" "distinct (map fst (frontends s))"
    by simp_all
  have a: "conn < next_obj s \<and> distinct (map fst conns) \<and>
       (\<forall>(conn_id, front) \<in> set conns. map_of (frontends s) front = Some (conn_id, conn))"
    if "(conn, conns) \<in> set (record_layers s)" for conn conns
  proof -
    from that d have m: "map_of (record_layers s) conn = Some conns" by simp
    with r have x: "conn < next_obj s" "distinct (map fst conns)"
      "\<forall>cid f. map_of conns cid = Some f \<longrightarrow> map_of (frontends s) f = Some (cid, conn)"
      by blast+
    from x(2,3) have "\<forall>(conn_id, front) \<in> set conns. map_of (frontends s) front = Some (conn_id, conn)"
      by auto
    with x show ?thesis by simp
  qed
  have b: "f < next_obj s \<and> map_of (conns_of s conn) cid = Some f"
    if "(f, cid, conn) \<in> set (frontends s)" for f cid conn
  proof -
    from that d have "map_of (frontends s) f = Some (cid, conn)" by simp
    with r show ?thesis by blast
  qed
  from r a b show "consistent s" unfolding consistent_def by blast
qed

lemma emit_fields [simp]:
  "unfinished (emit e s) = unfinished s"
  "record_layers (emit e s) = record_layers s"
  "frontends (emit e s) = frontends s"
  "next_obj (emit e s) = next_obj s"
  "effects (emit e s) = effects s @ [e]"
  by (simp_all add: emit_def)

lemma log_fields [simp]:
  "unfinished (log lv m l c s) = unfinished s"
  "record_layers (log lv m l c s) = record_layers s"
  "frontends (log lv m l c s) = frontends s"
  "next_obj (log lv m l c s) = next_obj s"
  "effects (log lv m l c s) = effects s @ [Log lv m l c]"
  by (simp_all add: log_def)

lemma conns_of_unfinished [simp]: "conns_of (s\<lparr>unfinished := x\<rparr>) = conns_of s"
  by (simp add: conns_of_def fun_eq_iff)

lemma conns_of_effects [simp]: "conns_of (s\<lparr>effects := x\<rparr>) = conns_of s"
  by (simp add: conns_of_def fun_eq_iff)

lemma conns_of_emit [simp]: "conns_of (emit e s) = conns_of s"
  by (simp add: emit_def)

lemma conns_of_log [simp]: "conns_of (log lv m l c s) = conns_of s"
  by (simp add: log_def)

lemma consistent_effects [simp]: "consistent (s\<lparr>effects := x\<rparr>) = consistent s"
  by (simp add: consistent_def)

lemma consistent_emit [simp]: "consistent (emit e s) = consistent s"
  by (simp add: emit_def)

lemma consistent_log [simp]: "consistent (log lv m l c s) = consistent s"
  by (simp add: log_def)

lemma distinct_ObjectSet_add: "distinct xs \<Longrightarrow> distinct (ObjectSet_add c xs)"
  by (simp add: ObjectSet_add_def)

lemma consistent_unfinished:
  "consistent s \<Longrightarrow> distinct u \<Longrightarrow> consistent (s\<lparr>unfinished := u\<rparr>)"
  by (simp add: consistent_maps)

lemma consistent_distinct_unfinished: "consistent s \<Longrightarrow> distinct (unfinished s)"
  by (simp add: consistent_def)

lemma consistent_send_packet:
  "consistent s \<Longrightarrow> consistent (send_packet tn s conn cid control data flushed)"
  by (simp add: send_packet_def Let_def consistent_unfinished distinct_ObjectSet_add
        consistent_distinct_unfinished)

lemma close_frontend_registered:
  assumes "consistent s" and "map_of (frontends s) f = Some (cid, conn)"
  shows "close_frontend s f r =
     Inr (s\<lparr>effects := effects s @ [if r then FrontReset f else FrontClose f],
            frontends := AList.delete f (frontends s),
            record_layers := AList.update conn (AList.delete cid (conns_of s conn)) (record_layers s)\<rparr>)"
proof -
  from assms have "map_of (conns_of s conn) cid = Some f"
    by (simp add: consistent_maps)
  then obtain conns where "map_of (record_layers s) conn = Some conns" "map_of conns cid = Some f"
    by (auto simp: conns_of_def split: option.splits)
  with assms(2) show ?thesis
    by (simp add: close_frontend_def emit_def conns_of_def)
qed

lemma close_frontend_unregistered:
  "map_of (frontends s) f = None \<Longrightarrow>
   close_frontend s f r = Inl (KeyError, emit (if r then FrontReset f else FrontClose f) s)"
  by (simp add: close_frontend_def emit_def)


lemma conns_of_Some: "map_of (record_layers s) conn = Some conns \<Longrightarrow> conns_of s conn = conns"
  by (simp add: conns_of_def)

lemma conns_of_lookup:
  "map_of (conns_of s conn) cid = Some f \<longleftrightarrow>
   (\<exists>conns. map_of (record_layers s) conn = Some conns \<and> map_of conns cid = Some f)"
  by (simp add: conns_of_def split: option.splits)

lemma consistent_forward:
  "consistent s \<Longrightarrow> map_of (record_layers s) conn = Some conns \<Longrightarrow> map_of conns cid = Some f \<Longrightarrow>
   map_of (frontends s) f = Some (cid, conn)"
  by (simp add: consistent_maps)

lemma consistent_backward:
  "consistent s \<Longrightarrow> map_of (frontends s) f = Some (cid, conn) \<Longrightarrow>
   \<exists>conns. map_of (record_layers s) conn = Some conns \<and> map_of conns cid = Some f"
  unfolding consistent_maps conns_of_lookup by blast

lemma consistent_fresh:
  "consistent s \<Longrightarrow> map_of (frontends s) f = Some (cid, conn) \<Longrightarrow> f < next_obj s"
  "consistent s \<Longrightarrow> map_of (record_layers s) conn = Some conns \<Longrightarrow> conn < next_obj s"
  by (simp_all add: consistent_maps)

lemma consistent_distinct:
  "consistent s \<Longrightarrow> distinct (map fst (record_layers s))"
  "consistent s \<Longrightarrow> distinct (map fst (frontends s))"
  "consistent s \<Longrightarrow> map_of (record_layers s) conn = Some conns \<Longrightarrow> distinct (map fst conns)"
  by (simp_all add: consistent_maps)

lemma consistentI:
  assumes "distinct (map fst (record_layers s))" "distinct (map fst (frontends s))"
    "distinct (unfinished s)"
    "\<And>conn conns. map_of (record_layers s) conn = Some conns \<Longrightarrow>
       conn < next_obj s \<and> distinct (map fst conns)"
    "\<And>conn conns cid f. map_of (record_layers s) conn = Some conns \<Longrightarrow>
       map_of conns cid = Some f \<Longrightarrow> map_of (frontends s) f = Some (cid, conn)"
    "\<And>f cid conn. map_of (frontends s) f = Some (cid, conn) \<Longrightarrow>
       f < next_obj s \<and> (\<exists>conns. map_of (record_layers s) conn = Some conns \<and> map_of conns cid = Some f)"
  shows "consistent s"
  unfolding consistent_maps conns_of_lookup using assms by blast

lemma consistent_closed:
  assumes c: "consistent s" and f: "map_of (frontends s) f = Some (cid, conn)"
  shows "consistent (s\<lparr>effects := x, frontends := AList.delete f (frontends s),
            record_layers := AList.update conn (AList.delete cid (conns_of s conn)) (record_layers s)\<rparr>)"
    (is "consistent ?s'")
proof -
  from c f obtain conns where rl: "map_of (record_layers s) conn = Some conns"
    and cf: "map_of conns cid = Some f"
    by (blast dest: consistent_backward)
  have co: "conns_of s conn = conns" using rl by (rule conns_of_Some)
  note [simp] = co update_conv' delete_conv'
  note [simp del] = map_of_eq_Some_iff
  show ?thesis
  proof (rule consistentI)
    show "distinct (map fst (record_layers ?s'))"
      using c by (simp add: distinct_update consistent_distinct)
    show "distinct (map fst (frontends ?s'))"
      using c by (simp add: distinct_delete consistent_distinct)
    show "distinct (unfinished ?s')"
      using c by (simp add: consistent_distinct_unfinished)
  next
    fix c' cs assume "map_of (record_layers ?s') c' = Some cs"
    then show "c' < next_obj ?s' \<and> distinct (map fst cs)"
      using c rl by (auto simp: distinct_delete split: if_splits dest: consistent_fresh consistent_distinct)
  next
    fix c' cs i g assume "map_of (record_layers ?s') c' = Some cs" "map_of cs i = Some g"
    then have "\<exists>cs0. map_of (record_layers s) c' = Some cs0 \<and> map_of cs0 i = Some g \<and>
        (c' = conn \<longrightarrow> i \<noteq> cid)"
      using rl by (auto split: if_splits)
    then obtain cs0 where cs0: "map_of (record_layers s) c' = Some cs0" "map_of cs0 i = Some g"
      "c' = conn \<longrightarrow> i \<noteq> cid" by blast
    with c have "map_of (frontends s) g = Some (i, c')" by (blast dest: consistent_forward)
    with f cs0(3) show "map_of (frontends ?s') g = Some (i, c')"
      by auto
  next
    fix g i c' assume "map_of (frontends ?s') g = Some (i, c')"
    then have g: "g \<noteq> f" "map_of (frontends s) g = Some (i, c')"
      by (auto split: if_splits)
    with c obtain cs where cs: "map_of (record_layers s) c' = Some cs" "map_of cs i = Some g"
      by (blast dest: consistent_backward)
    from g c have "g < next_obj s" by (blast dest: consistent_fresh)
    moreover have "\<exists>conns. map_of (record_layers ?s') c' = Some conns \<and> map_of conns i = Some g"
      using cs rl cf g by auto
    ultimately show "g < next_obj ?s' \<and>
        (\<exists>conns. map_of (record_layers ?s') c' = Some conns \<and> map_of conns i = Some g)"
      by simp
  qed
qed

lemma consistent_close_frontend:
  "consistent s \<Longrightarrow> consistent (state_of (close_frontend s f r))"
proof (cases "map_of (frontends s) f")
  case None
  assume "consistent s"
  with None show ?thesis by (simp add: close_frontend_unregistered)
next
  case (Some p)
  assume "consistent s"
  with Some show ?thesis
    by (cases p) (simp add: close_frontend_registered consistent_closed)
qed


lemma conns_of_next_obj [simp]: "conns_of (s\<lparr>next_obj := x\<rparr>) = conns_of s"
  by (simp add: conns_of_def fun_eq_iff)

lemma consistent_registered:
  assumes c: "consistent s" and rl: "map_of (record_layers s) conn = Some conns"
    and free: "map_of conns cid = None"
  shows "consistent (s\<lparr>next_obj := Suc (next_obj s),
            record_layers := AList.update conn (AList.update cid (next_obj s) (conns_of s conn))
                               (record_layers s),
            frontends := AList.update (next_obj s) (cid, conn) (frontends s)\<rparr>)"
    (is "consistent ?s'")
proof -
  have co: "conns_of s conn = conns" using rl by (rule conns_of_Some)
  have new: "map_of (frontends s) (next_obj s) = None"
  proof (cases "map_of (frontends s) (next_obj s)")
    case (Some p)
    with c have "next_obj s < next_obj s" by (cases p) (auto dest: consistent_fresh)
    then show ?thesis by simp
  qed simp
  note [simp] = co update_conv' delete_conv'
  note [simp del] = map_of_eq_Some_iff
  show ?thesis
  proof (rule consistentI)
    show "distinct (map fst (record_layers ?s'))"
      using c by (simp add: distinct_update consistent_distinct)
    show "distinct (map fst (frontends ?s'))"
      using c by (simp add: distinct_update consistent_distinct)
    show "distinct (unfinished ?s')"
      using c by (simp add: consistent_distinct_unfinished)
  next
    fix c' cs assume "map_of (record_layers ?s') c' = Some cs"
    then have "(c' = conn \<and> cs = AList.update cid (next_obj s) conns) \<or>
        map_of (record_layers s) c' = Some cs"
      by (auto split: if_splits)
    then show "c' < next_obj ?s' \<and> distinct (map fst cs)"
      using c rl consistent_fresh(2) [of s] consistent_distinct(3) [of s]
      by (auto simp: distinct_update less_Suc_eq)
  next
    fix c' cs i g assume a: "map_of (record_layers ?s') c' = Some cs" "map_of cs i = Some g"
    show "map_of (frontends ?s') g = Some (i, c')"
    proof (cases "c' = conn \<and> i = cid")
      case True
      with a show ?thesis by auto
    next
      case False
      with a have "\<exists>cs0. map_of (record_layers s) c' = Some cs0 \<and> map_of cs0 i = Some g"
        using rl by (auto split: if_splits)
      with c have g: "map_of (frontends s) g = Some (i, c')" by (blast dest: consistent_forward)
      with new have "g \<noteq> next_obj s" by auto
      with g show ?thesis by simp
    qed
  next
    fix g i c' assume a: "map_of (frontends ?s') g = Some (i, c')"
    show "g < next_obj ?s' \<and>
        (\<exists>conns. map_of (record_layers ?s') c' = Some conns \<and> map_of conns i = Some g)"
    proof (cases "g = next_obj s")
      case True
      with a show ?thesis by simp
    next
      case False
      with a have g: "map_of (frontends s) g = Some (i, c')" by simp
      with c obtain cs where cs: "map_of (record_layers s) c' = Some cs" "map_of cs i = Some g"
        by (blast dest: consistent_backward)
      from g c have "g < next_obj s" by (blast dest: consistent_fresh)
      moreover have "\<exists>conns. map_of (record_layers ?s') c' = Some conns \<and> map_of conns i = Some g"
        using cs rl free by auto
      ultimately show ?thesis by simp
    qed
  qed
qed

lemma consistent_process_packet_fin:
  "consistent s \<Longrightarrow> consistent (state_of (process_packet_fin tn s conn control cid))"
  by (simp add: process_packet_fin_def consistent_close_frontend split: option.splits)

lemma consistent_process_packet_dat:
  "consistent s \<Longrightarrow> consistent (state_of (process_packet_dat tn s conn control cid data env))"
proof -
  assume c: "consistent s"
  have "consistent (emit e s\<lparr>unfinished := ObjectSet_add x (unfinished s)\<rparr>)" for e x
    using c by (simp add: consistent_unfinished distinct_ObjectSet_add consistent_distinct_unfinished)
  with c show ?thesis
    by (simp add: process_packet_dat_def Let_def consistent_process_packet_fin
          split: option.splits send_result.splits)
qed

lemma consistent_process_packet_new:
  assumes "consistent s" "map_of (record_layers s) conn = Some conns" "map_of conns cid = None"
  shows "consistent (state_of (process_packet_new tn s conn control cid data env))"
proof (cases "new_frontend env")
  case Constructed
  with assms show ?thesis
    by (simp add: process_packet_new_def Let_def consistent_process_packet_dat
          consistent_registered)
next
  case (FrontendUnavailableError m)
  with assms show ?thesis
    by (simp add: process_packet_new_def consistent_send_packet)
qed

lemma consistent_process_packet_syn:
  assumes c: "consistent s" and rl: "map_of (record_layers s) conn = Some conns"
  shows "consistent (state_of (process_packet_syn tn s conn control cid data env))"
proof (cases "control AND syn (StatusControl tn) \<noteq> 0")
  case False
  with c show ?thesis by (simp add: process_packet_syn_def consistent_process_packet_dat)
next
  case True
  have co: "conns_of s conn = conns" using rl by (rule conns_of_Some)
  show ?thesis
  proof (cases "map_of conns cid")
    case None
    with True c rl show ?thesis
      by (simp add: process_packet_syn_def co consistent_process_packet_new)
  next
    case (Some old)
    with c rl have f: "map_of (frontends s) old = Some (cid, conn)"
      by (blast dest: consistent_forward)
    let ?s1 = "s\<lparr>effects := effects s @ [FrontClose old],
            frontends := AList.delete old (frontends s),
            record_layers := AList.update conn (AList.delete cid conns) (record_layers s)\<rparr>"
    have cl: "close_frontend s old False = Inr ?s1"
      using close_frontend_registered [OF c f, of False] by (simp add: co)
    have "consistent ?s1" using consistent_closed [OF c f] by (simp add: co)
    moreover have "map_of (record_layers ?s1) conn = Some (AList.delete cid conns)"
      by (simp add: update_conv')
    moreover have "map_of (AList.delete cid conns) cid = None"
      by (simp add: delete_conv')
    ultimately have "consistent (state_of (process_packet_new tn ?s1 conn control cid data env))"
      by (rule consistent_process_packet_new)
    with True Some cl show ?thesis
      by (simp add: process_packet_syn_def co)
  qed
qed

lemma consistent_process_packet:
  "consistent s \<Longrightarrow> consistent (state_of (process_packet tn s conn packet env))"
  by (simp add: process_packet_def consistent_close_frontend consistent_process_packet_syn
        split: prod.splits option.splits)

lemma consistent_process_packets:
  "consistent s \<Longrightarrow> consistent (state_of (process_packets tn s conn packets))"
proof (induction packets arbitrary: s)
  case Nil
  then show ?case by simp
next
  case (Cons p packets)
  obtain packet env where p: "p = (packet, env)" by (cases p)
  from Cons.prems have c: "consistent (state_of (process_packet tn s conn packet env))"
    by (rule consistent_process_packet)
  show ?case
  proof (cases "process_packet tn s conn packet env")
    case (Inl x)
    with c p show ?thesis by (cases x) simp
  next
    case (Inr s')
    with c p Cons.IH [of s'] show ?thesis by simp
  qed
qed


lemma delete_filter: "AList.delete k al = filter (\<lambda>p. fst p \<noteq> k) al"
  by (induction al) auto

lemma close_frontends_owned:
  assumes "consistent s" "distinct fs"
    "\<forall>f\<in>set fs. \<exists>cid. map_of (frontends s) f = Some (cid, conn)"
    "map_of (record_layers s) conn \<noteq> None"
  shows "\<exists>s'. close_frontends s fs = Inr s' \<and> consistent s' \<and>
           effects s' = effects s @ map FrontClose fs \<and>
           unfinished s' = unfinished s \<and> next_obj s' = next_obj s \<and>
           frontends s' = filter (\<lambda>p. fst p \<notin> set fs) (frontends s) \<and>
           AList.delete conn (record_layers s') = AList.delete conn (record_layers s) \<and>
           map_of (record_layers s') conn \<noteq> None"
  using assms
proof (induction fs arbitrary: s)
  case Nil
  then show ?case by simp
next
  case (Cons f fs)
  from Cons.prems obtain cid where f: "map_of (frontends s) f = Some (cid, conn)" by auto
  let ?s1 = "s\<lparr>effects := effects s @ [FrontClose f],
            frontends := AList.delete f (frontends s),
            record_layers := AList.update conn (AList.delete cid (conns_of s conn)) (record_layers s)\<rparr>"
  have cl: "close_frontend s f False = Inr ?s1"
    using close_frontend_registered [OF Cons.prems(1) f, of False] by simp
  have c1: "consistent ?s1" using Cons.prems(1) f by (rule consistent_closed)
  have "\<forall>g\<in>set fs. \<exists>cid. map_of (frontends ?s1) g = Some (cid, conn)"
    using Cons.prems(2,3) by (auto simp: delete_conv')
  moreover have "map_of (record_layers ?s1) conn \<noteq> None"
    by (simp add: update_conv')
  ultimately obtain s' where s': "close_frontends ?s1 fs = Inr s'" "consistent s'"
    "effects s' = effects ?s1 @ map FrontClose fs" "unfinished s' = unfinished ?s1"
    "next_obj s' = next_obj ?s1"
    "frontends s' = filter (\<lambda>p. fst p \<notin> set fs) (frontends ?s1)"
    "AList.delete conn (record_layers s') = AList.delete conn (record_layers ?s1)"
    "map_of (record_layers s') conn \<noteq> None"
    using Cons.IH [of ?s1] c1 Cons.prems(2) by auto
  have "filter (\<lambda>p. fst p \<notin> set fs) (AList.delete f (frontends s)) =
        filter (\<lambda>p. fst p \<notin> set (f # fs)) (frontends s)"
    by (auto simp: delete_filter intro: filter_cong)
  with s' cl show ?case
    by (simp add: delete_update_same)
qed

lemma consistent_values:
  assumes c: "consistent s" and rl: "map_of (record_layers s) conn = Some conns"
  shows "distinct (map snd conns)"
    and "\<forall>f\<in>set (map snd conns). \<exists>cid. map_of (frontends s) f = Some (cid, conn)"
proof -
  have d: "distinct (map fst conns)" using c rl by (rule consistent_distinct)
  have m: "map_of (frontends s) f = Some (cid, conn)" if "(cid, f) \<in> set conns" for cid f
  proof -
    from that d have "map_of conns cid = Some f" by simp
    with c rl show ?thesis by (rule consistent_forward)
  qed
  then show "\<forall>f\<in>set (map snd conns). \<exists>cid. map_of (frontends s) f = Some (cid, conn)"
    by auto
  have "inj_on snd (set conns)"
  proof (rule inj_onI)
    fix p q assume pq: "p \<in> set conns" "q \<in> set conns" "snd p = snd q"
    obtain i f j g where p: "p = (i, f)" and q: "q = (j, g)" by (cases p, cases q)
    from pq p q have "map_of (frontends s) f = Some (i, conn)"
      "map_of (frontends s) f = Some (j, conn)"
      using m [of i f] m [of j g] by simp_all
    then have "i = j" by simp
    with pq(3) p q show "p = q" by simp
  qed
  moreover from d have "distinct conns" by (rule distinct_map [THEN iffD1, THEN conjunct1])
  ultimately show "distinct (map snd conns)" by (simp add: distinct_map)
qed

lemma clean_record_layer_registered:
  assumes c: "consistent s" and rl: "map_of (record_layers s) conn = Some conns"
  shows "clean_record_layer s conn =
     Inr (s\<lparr>effects := effects s @ map (FrontClose \<circ> snd) conns,
            frontends := filter (\<lambda>p. fst p \<notin> snd ` set conns) (frontends s),
            record_layers := AList.delete conn (record_layers s)\<rparr>)"
proof -
  from rl have "map_of (record_layers s) conn \<noteq> None" by simp
  from close_frontends_owned [OF c consistent_values [OF c rl] this]
  obtain s' where s': "close_frontends s (map snd conns) = Inr s'"
    "effects s' = effects s @ map FrontClose (map snd conns)" "unfinished s' = unfinished s"
    "next_obj s' = next_obj s"
    "frontends s' = filter (\<lambda>p. fst p \<notin> set (map snd conns)) (frontends s)"
    "AList.delete conn (record_layers s') = AList.delete conn (record_layers s)"
    "map_of (record_layers s') conn \<noteq> None" "consistent s'"
    by blast
  have "s'\<lparr>record_layers := AList.delete conn (record_layers s')\<rparr> =
      s\<lparr>effects := effects s @ map (FrontClose \<circ> snd) conns,
            frontends := filter (\<lambda>p. fst p \<notin> snd ` set conns) (frontends s),
            record_layers := AList.delete conn (record_layers s)\<rparr>"
    using s'(2-6) by (intro state.equality) simp_all
  with s'(1,7) rl show ?thesis
    by (auto simp: clean_record_layer_def)
qed


lemma map_of_filter_fst:
  "map_of (filter (\<lambda>p. fst p \<notin> A) al) k = (if k \<in> A then None else map_of al k)"
  by (induction al) auto

lemma consistent_cleaned:
  assumes c: "consistent s" and rl: "map_of (record_layers s) conn = Some conns"
  shows "consistent (s\<lparr>effects := x,
            frontends := filter (\<lambda>p. fst p \<notin> snd ` set conns) (frontends s),
            record_layers := AList.delete conn (record_layers s)\<rparr>)"
    (is "consistent ?s'")
proof -
  have d: "distinct (map fst conns)" using c rl by (rule consistent_distinct)
  have own: "map_of (frontends s) g = Some (j, conn)" if "(j, g) \<in> set conns" for j g
  proof -
    from that d have "map_of conns j = Some g" by simp
    with c rl show ?thesis by (rule consistent_forward)
  qed
  note [simp] = delete_conv' map_of_filter_fst
  note [simp del] = map_of_eq_Some_iff
  show ?thesis
  proof (rule consistentI)
    show "distinct (map fst (record_layers ?s'))"
      using c by (simp add: distinct_delete consistent_distinct)
    show "distinct (map fst (frontends ?s'))"
      using c by (simp add: distinct_map_filter consistent_distinct)
    show "distinct (unfinished ?s')"
      using c by (simp add: consistent_distinct_unfinished)
  next
    fix c' cs assume "map_of (record_layers ?s') c' = Some cs"
    then have "map_of (record_layers s) c' = Some cs" by (auto split: if_splits)
    with c show "c' < next_obj ?s' \<and> distinct (map fst cs)"
      by (auto dest: consistent_fresh consistent_distinct)
  next
    fix c' cs i g assume "map_of (record_layers ?s') c' = Some cs" "map_of cs i = Some g"
    then have a: "c' \<noteq> conn" "map_of (record_layers s) c' = Some cs" "map_of cs i = Some g"
      by (auto split: if_splits)
    with c have g: "map_of (frontends s) g = Some (i, c')" by (blast dest: consistent_forward)
    have "g \<notin> snd ` set conns"
    proof
      assume "g \<in> snd ` set conns"
      then obtain j where "(j, g) \<in> set conns" by auto
      then have "map_of (frontends s) g = Some (j, conn)" by (rule own)
      with g a(1) show False by simp
    qed
    with g show "map_of (frontends ?s') g = Some (i, c')" by simp
  next
    fix g i c' assume "map_of (frontends ?s') g = Some (i, c')"
    then have a: "g \<notin> snd ` set conns" "map_of (frontends s) g = Some (i, c')"
      by (auto split: if_splits)
    with c obtain cs where cs: "map_of (record_layers s) c' = Some cs" "map_of cs i = Some g"
      by (blast dest: consistent_backward)
    have "c' \<noteq> conn"
    proof
      assume "c' = conn"
      with cs rl have "map_of conns i = Some g" by simp
      then have "(i, g) \<in> set conns" by (rule map_of_SomeD)
      with a(1) show False by force
    qed
    moreover from a c have "g < next_obj s" by (blast dest: consistent_fresh)
    ultimately show "g < next_obj ?s' \<and>
        (\<exists>conns. map_of (record_layers ?s') c' = Some conns \<and> map_of conns i = Some g)"
      using cs by simp
  qed
qed

lemma clean_record_layer_unregistered:
  "map_of (record_layers s) conn = None \<Longrightarrow> clean_record_layer s conn = Inl (KeyError, s)"
  by (simp add: clean_record_layer_def)

lemma consistent_clean_record_layer:
  "consistent s \<Longrightarrow> consistent (state_of (clean_record_layer s conn))"
  by (cases "map_of (record_layers s) conn")
    (simp_all add: clean_record_layer_unregistered clean_record_layer_registered consistent_cleaned)

lemma consistent_process_record_layer:
  assumes "consistent s"
  shows "consistent (state_of (process_record_layer tn s conn received))"
proof (cases received)
  case (ReceiveCritical e)
  with consistent_clean_record_layer [OF assms, of conn] show ?thesis
    by (cases "clean_record_layer s conn") (auto simp: process_record_layer_def)
next
  case (ReceiveRaises x)
  with assms show ?thesis by (simp add: process_record_layer_def)
next
  case ReceiveNone
  with consistent_clean_record_layer [OF assms, of conn] show ?thesis
    by (cases "clean_record_layer s conn") (auto simp: process_record_layer_def)
next
  case (ReceivePackets packets)
  with assms show ?thesis by (simp add: process_record_layer_def consistent_process_packets)
qed

lemma consistent_process_frontend:
  assumes "consistent s"
  shows "consistent (state_of (process_frontend tn s front received flushed))"
proof -
  have "consistent (state_of (close_frontend (send_packet tn s1 conn cid control data flushed) front r))"
    if "consistent s1" for s1 conn cid control data r
    using that by (intro consistent_close_frontend consistent_send_packet)
  with assms show ?thesis
    by (auto simp: process_frontend_def Let_def consistent_send_packet
          split: recv_result.splits option.splits prod.splits if_splits)
qed

lemma consistent_process_backend:
  assumes c: "consistent s"
  shows "consistent (process_backend s)"
proof -
  let ?s' = "s\<lparr>next_obj := Suc (next_obj s),
      record_layers := AList.update (next_obj s) [] (record_layers s)\<rparr>"
  have new: "map_of (record_layers s) (next_obj s) = None"
  proof (cases "map_of (record_layers s) (next_obj s)")
    case (Some p)
    with c have "next_obj s < next_obj s" by (auto dest: consistent_fresh)
    then show ?thesis by simp
  qed simp
  note [simp] = update_conv'
  note [simp del] = map_of_eq_Some_iff
  have "consistent ?s'"
  proof (rule consistentI)
    show "distinct (map fst (record_layers ?s'))"
      using c by (simp add: distinct_update consistent_distinct)
    show "distinct (map fst (frontends ?s'))"
      using c by (simp add: consistent_distinct)
    show "distinct (unfinished ?s')"
      using c by (simp add: consistent_distinct_unfinished)
  next
    fix c' cs assume "map_of (record_layers ?s') c' = Some cs"
    then have "(c' = next_obj s \<and> cs = []) \<or> map_of (record_layers s) c' = Some cs"
      by (auto split: if_splits)
    with c show "c' < next_obj ?s' \<and> distinct (map fst cs)"
      using consistent_fresh(2) [of s] consistent_distinct(3) [of s]
      by (auto simp: less_Suc_eq)
  next
    fix c' cs i g assume "map_of (record_layers ?s') c' = Some cs" "map_of cs i = Some g"
    then have "map_of (record_layers s) c' = Some cs" "map_of cs i = Some g"
      by (auto split: if_splits)
    with c show "map_of (frontends ?s') g = Some (i, c')"
      by (auto dest: consistent_forward)
  next
    fix g i c' assume a: "map_of (frontends ?s') g = Some (i, c')"
    with c obtain cs where cs: "map_of (record_layers s) c' = Some cs" "map_of cs i = Some g"
      by (auto dest: consistent_backward)
    with new have "c' \<noteq> next_obj s" by auto
    moreover from a c have "g < next_obj s" by (auto dest: consistent_fresh)
    ultimately show "g < next_obj ?s' \<and>
        (\<exists>conns. map_of (record_layers ?s') c' = Some conns \<and> map_of conns i = Some g)"
      using cs by simp
  qed
  then show ?thesis by (simp add: process_backend_def Let_def)
qed

lemma consistent_process_sending:
  "consistent s \<Longrightarrow> consistent (state_of (process_sending s conn is_finished))"
proof -
  assume c: "consistent s"
  have "consistent (emit e s\<lparr>unfinished := removeAll conn (unfinished s)\<rparr>)" for e
    using c by (simp add: consistent_unfinished distinct_removeAll consistent_distinct_unfinished)
  with c show ?thesis
    by (simp add: process_sending_def Let_def ObjectSet_remove_def)
qed


lemma consistent_process_readable:
  "consistent s \<Longrightarrow> consistent (state_of (process_readable tn s r))"
proof (induction r arbitrary: s)
  case Nil
  then show ?case by simp
next
  case (Cons c r)
  let ?step = "case c of
        BackendReady \<Rightarrow> Inr (process_backend s)
      | RecordLayerReady conn received \<Rightarrow> process_record_layer tn s conn received
      | FrontendReady front received flushed \<Rightarrow> process_frontend tn s front received flushed"
  from Cons.prems have c: "consistent (state_of ?step)"
    by (cases c)
      (simp_all add: consistent_process_backend consistent_process_record_layer
         consistent_process_frontend)
  show ?case
  proof (cases ?step)
    case (Inl x)
    with c show ?thesis by (cases x) simp
  next
    case (Inr s')
    with c Cons.IH [of s'] show ?thesis by simp
  qed
qed

lemma consistent_process_writable:
  "consistent s \<Longrightarrow> consistent (state_of (process_writable s w))"
proof (induction w arbitrary: s)
  case Nil
  then show ?case by simp
next
  case (Cons p w)
  obtain conn is_finished where p: "p = (conn, is_finished)" by (cases p)
  from Cons.prems have c: "consistent (state_of (process_sending s conn is_finished))"
    by (rule consistent_process_sending)
  show ?case
  proof (cases "process_sending s conn is_finished")
    case (Inl x)
    with c p show ?thesis by (cases x) simp
  next
    case (Inr s')
    with c p Cons.IH [of s'] show ?thesis by simp
  qed
qed

lemma consistent_process:
  assumes "consistent s"
  shows "consistent (state_of (process tn s selected))"
proof (cases selected)
  case (SelectRaises errno)
  with assms show ?thesis by (simp add: process_def)
next
  case (Selected r w)
  from assms have c: "consistent (state_of (process_readable tn s r))"
    by (rule consistent_process_readable)
  show ?thesis
  proof (cases "process_readable tn s r")
    case (Inl x)
    with c Selected show ?thesis by (cases x) (simp add: process_def)
  next
    case (Inr s')
    with c Selected consistent_process_writable [of s' w] show ?thesis
      by (simp add: process_def)
  qed
qed

lemma consistent_run_iteration:
  assumes "consistent s"
  shows "consistent (state_of (run_iteration tn s selected))"
proof (cases "process tn s selected")
  case (Inl x)
  with consistent_process [OF assms, of tn selected] show ?thesis
    by (cases x) (simp add: run_iteration_def)
next
  case (Inr s')
  with consistent_process [OF assms, of tn selected] show ?thesis
    by (simp add: run_iteration_def)
qed

lemma consistent_run_loop:
  "consistent s \<Longrightarrow> consistent (state_of (run_loop tn s turns))"
proof (induction turns arbitrary: s)
  case Nil
  then show ?case by simp
next
  case (Cons selected turns)
  from Cons.prems have c: "consistent (state_of (run_iteration tn s selected))"
    by (rule consistent_run_iteration)
  show ?case
  proof (cases "run_iteration tn s selected")
    case (Inl x)
    with c show ?thesis by (cases x) simp
  next
    case (Inr s')
    with c Cons.IH [of s'] show ?thesis by simp
  qed
qed

lemma consistent_init: "consistent init"
  by (simp add: consistent_def init_def)

lemma consistent_unique:
  assumes "consistent s" "map_of (frontends s) f = Some (cid, conn)"
    "map_of (frontends s) g = Some (cid, conn)"
  shows "f = g"
proof -
  from assms(1,2) obtain cs where "map_of (record_layers s) conn = Some cs" "map_of cs cid = Some f"
    by (blast dest: consistent_backward)
  moreover from assms(1,3) obtain cs' where "map_of (record_layers s) conn = Some cs'"
    "map_of cs' cid = Some g"
    by (blast dest: consistent_backward)
  ultimately show ?thesis by simp
qed

section \<open>The claims\<close>

text \<open>
  C3: a packet whose control flags include \<open>rst\<close>, for an id that is open, resets the
  frontend stored under the id and removes it from both dictionaries, and does nothing
  else: the payload is not sent to any frontend, no frontend is constructed and none is
  closed, whatever other flags the packet carries.
\<close>

theorem rst_wins:
  assumes "consistent s"
    and "unpack_packet tn packet = (control, conn_id, data)"
    and "control AND rst (StatusControl tn) \<noteq> 0"
    and "map_of (record_layers s) conn = Some conns"
    and "map_of conns conn_id = Some front"
  shows "process_packet tn s conn packet env =
     Inr (s\<lparr>effects := effects s @ [FrontReset front],
            frontends := AList.delete front (frontends s),
            record_layers := AList.update conn (AList.delete conn_id conns) (record_layers s)\<rparr>)"
proof -
  from assms(1,4,5) have "map_of (frontends s) front = Some (conn_id, conn)"
    by (rule consistent_forward)
  with assms(1) have "close_frontend s front True =
     Inr (s\<lparr>effects := effects s @ [FrontReset front],
            frontends := AList.delete front (frontends s),
            record_layers := AList.update conn (AList.delete conn_id (conns_of s conn)) (record_layers s)\<rparr>)"
    by (simp add: close_frontend_registered)
  with assms(2-5) show ?thesis
    by (simp add: process_packet_def conns_of_Some)
qed

text \<open>The theorem at a packet that carries all four flags and a payload.\<close>

theorem rst_wins_witness:
  "process_packet example_tunnel example_open 0 (CHR 0x0F # CHR 0x01 # ''hi'') quiet =
     Inr \<lparr>unfinished = [],
          record_layers = [(0, [(2, 2)]), (3, [(1, 4)])],
          frontends = [(2, 2, 0), (4, 1, 3)],
          next_obj = 5, effects = [FrontReset 1]\<rparr>"
  using rst_wins [of example_open example_tunnel "CHR 0x0F # CHR 0x01 # ''hi''" 15 1 "''hi''"
      0 "[(1, 1), (2, 2)]" 1 quiet]
  by (simp add: consistent_def example_open_def example_tunnel_def example_unpack_def conns_of_def)

text \<open>
  C6: a packet with \<open>syn\<close> (and without \<open>rst\<close>) for an id that is not open, when
  the frontend factory raises \<open>FrontendUnavailableError\<close>: the error is logged, one
  packet is sent back on the record layer, made of the header with the \<open>rst\<close> flag
  and the id and of an empty payload, and the two dictionaries stay as they were, so the
  id is still not open. The record layer enters \<open>unfinished\<close> only if that packet was
  not flushed.
\<close>

theorem syn_unavailable:
  assumes "unpack_packet tn packet = (control, conn_id, data)"
    and "control AND rst (StatusControl tn) = 0"
    and "control AND syn (StatusControl tn) \<noteq> 0"
    and "map_of (record_layers s) conn = Some conns"
    and "map_of conns conn_id = None"
    and "new_frontend env = FrontendUnavailableError m"
  shows "process_packet tn s conn packet env =
     Inr (s\<lparr>effects := effects s @
              [Log ERROR (Text m) ''frontend'' (Some conn),
               SendPacket conn (pack_header tn (rst (StatusControl tn)) conn_id @ [])],
            unfinished := (if send_packet_flushed env then unfinished s
                           else ObjectSet_add (RecordLayer conn) (unfinished s))\<rparr>)"
  using assms
  by (simp add: process_packet_def process_packet_syn_def process_packet_new_def
        send_packet_def conns_of_Some Let_def log_def emit_def)

text \<open>The theorem at a \<open>syn\<close> for the id 3 on record layer 0.\<close>

theorem syn_unavailable_witness:
  "process_packet example_tunnel example_open 0 [CHR 0x01, CHR 0x03]
      (quiet\<lparr>new_frontend := FrontendUnavailableError ''no route''\<rparr>) =
     Inr (example_open\<lparr>effects :=
            [Log ERROR (Text ''no route'') ''frontend'' (Some 0),
             SendPacket 0 (pack_header example_tunnel 8 3)]\<rparr>)"
  using syn_unavailable [of example_tunnel "[CHR 0x01, CHR 0x03]" 1 3 "[]" example_open
      0 "[(1, 1), (2, 2)]" "quiet\<lparr>new_frontend := FrontendUnavailableError ''no route''\<rparr>"
      "''no route''"]
  by (simp add: example_open_def example_tunnel_def example_unpack_def quiet_def)

text \<open>
  C7: when \<open>recv\<close> of an open frontend returns \<open>None\<close>, one packet is sent on the
  owning record layer, made of the header with the \<open>fin\<close> flag and the id of the
  frontend and of an empty payload; then the frontend is closed (not reset) and removed from
  both dictionaries.
\<close>

theorem frontend_end_of_stream:
  assumes "consistent s"
    and "independent_bits (StatusControl tn)"
    and "map_of (frontends s) front = Some (conn_id, conn)"
  shows "process_frontend tn s front RecvNone flushed =
     Inr (s\<lparr>effects := effects s @
              [SendPacket conn (pack_header tn (fin (StatusControl tn)) conn_id @ []),
               FrontClose front],
            unfinished := (if flushed then unfinished s
                           else ObjectSet_add (RecordLayer conn) (unfinished s)),
            frontends := AList.delete front (frontends s),
            record_layers :=
              AList.update conn (AList.delete conn_id (conns_of s conn)) (record_layers s)\<rparr>)"
proof -
  let ?s2 = "send_packet tn s conn conn_id (fin (StatusControl tn)) [] flushed"
  have c2: "consistent ?s2" using assms(1) by (rule consistent_send_packet)
  have f2: "map_of (frontends ?s2) front = Some (conn_id, conn)"
    using assms(3) by (simp add: send_packet_def Let_def)
  have "close_frontend ?s2 front False =
     Inr (?s2\<lparr>effects := effects ?s2 @ [FrontClose front],
            frontends := AList.delete front (frontends ?s2),
            record_layers :=
              AList.update conn (AList.delete conn_id (conns_of ?s2 conn)) (record_layers ?s2)\<rparr>)"
    using close_frontend_registered [OF c2 f2, of False] by simp
  moreover have "fin (StatusControl tn) \<noteq> 0" "fin (StatusControl tn) AND rst (StatusControl tn) = 0"
    using assms(2) by (simp_all add: independent_bits_def)
  ultimately show ?thesis
    using assms(3)
    by (simp add: process_frontend_def send_packet_def Let_def)
qed

text \<open>The theorem at the frontend 1 of record layer 0.\<close>

theorem frontend_end_of_stream_witness:
  "process_frontend example_tunnel example_open 1 RecvNone True =
     Inr \<lparr>unfinished = [],
          record_layers = [(0, [(2, 2)]), (3, [(1, 4)])],
          frontends = [(2, 2, 0), (4, 1, 3)],
          next_obj = 5,
          effects = [SendPacket 0 (pack_header example_tunnel 4 1), FrontClose 1]\<rparr>"
  using frontend_end_of_stream [of example_open example_tunnel 1 1 0 True]
  by (simp add: consistent_def independent_bits_def example_open_def example_tunnel_def
        conns_of_def)

text \<open>
  When \<open>recv\<close> of an open frontend raises an exception whose text is ASCII, the
  error is logged, one packet is sent on the owning record layer, made of the header with
  the \<open>rst\<close> flag and the id and of an empty payload; then the frontend is reset (not
  closed) and removed from both dictionaries. The call returns, the record layer stays
  registered with its other frontends, and no other entry of the dictionaries changes.
\<close>

lemma frontend_error_ascii:
  assumes "consistent s"
    and "independent_bits (StatusControl tn)"
    and "map_of (frontends s) front = Some (conn_id, conn)"
    and "ascii m"
  shows "process_frontend tn s front (RecvRaises m) flushed =
     Inr (s\<lparr>effects := effects s @
              [Log ERROR (TextStr ''unknown error: '' (Exn m)) ''frontend'' (Some conn),
               SendPacket conn (pack_header tn (rst (StatusControl tn)) conn_id @ []),
               FrontReset front],
            unfinished := (if flushed then unfinished s
                           else ObjectSet_add (RecordLayer conn) (unfinished s)),
            frontends := AList.delete front (frontends s),
            record_layers :=
              AList.update conn (AList.delete conn_id (conns_of s conn)) (record_layers s)\<rparr>)"
proof -
  let ?s1 = "log ERROR (TextStr ''unknown error: '' (Exn m)) ''frontend'' (Some conn) s"
  let ?s2 = "send_packet tn ?s1 conn conn_id (rst (StatusControl tn)) [] flushed"
  have c2: "consistent ?s2" using assms(1) by (intro consistent_send_packet) simp
  have f2: "map_of (frontends ?s2) front = Some (conn_id, conn)"
    using assms(3) by (simp add: send_packet_def Let_def)
  have "close_frontend ?s2 front True =
     Inr (?s2\<lparr>effects := effects ?s2 @ [FrontReset front],
            frontends := AList.delete front (frontends ?s2),
            record_layers :=
              AList.update conn (AList.delete conn_id (conns_of ?s2 conn)) (record_layers ?s2)\<rparr>)"
    using close_frontend_registered [OF c2 f2, of True] by simp
  moreover have "rst (StatusControl tn) \<noteq> 0"
    using assms(2) by (simp add: independent_bits_def)
  ultimately show ?thesis
    using assms(3,4)
    by (simp add: process_frontend_def send_packet_def Let_def log_def)
qed

text \<open>
  C8 fails in the code when the text of the exception is not ASCII. At the frontend 1 of
  record layer 0, whose \<open>recv\<close> raises an exception with the one-byte text
  \<open>0xE9\<close>, the concatenation of line 191 raises inside the handler:
  \<open>_process_frontend\<close> leaves with a Unicode error and the state it was given. The
  handler of \<open>run\<close> logs that error and the turn ends: no packet has been sent on the
  record layer, the frontend has not been reset, and it is still in both dictionaries.
\<close>

theorem frontend_error_not_ascii:
  "process_frontend example_tunnel example_open 1 (RecvRaises [CHR 0xE9]) True =
     Inl (UnicodeError, example_open) \<and>
   run_iteration example_tunnel example_open
     (Selected [FrontendReady 1 (RecvRaises [CHR 0xE9]) True] []) =
     Inr (example_open\<lparr>effects :=
       [Log ERROR (TextStr ''unknown exception occurred: '' UnicodeError) ''tunnel'' None,
        Log DEBUG Stack ''tunnel'' None]\<rparr>)"
  by (simp add: process_frontend_def run_iteration_def process_def example_open_def log_def)

text \<open>
  C5: when \<open>receive_packets\<close> of a registered record layer raises a critical
  exception (wrong hash, invalid header, remote reset, insecure closing), every frontend
  of that record layer is closed (not reset) and removed, the record layer is removed, its
  transport is closed and a warning is logged. The call returns without raising: the
  entries of every other record layer and of the frontends of other record layers are as
  before, and \<open>_process\<close> goes on with the next readable connection.
\<close>

theorem critical_teardown:
  assumes "consistent s"
    and "map_of (record_layers s) conn = Some conns"
  shows "process_record_layer tn s conn (ReceiveCritical e) =
     Inr (s\<lparr>effects := effects s @ map (FrontClose \<circ> snd) conns @
              [TransportClose conn,
               Log WARNING (Text (critical_msg e)) ''record'' (Some conn)],
            frontends := filter (\<lambda>p. fst p \<notin> snd ` set conns) (frontends s),
            record_layers := AList.delete conn (record_layers s)\<rparr>) \<and>
     (\<forall>c. c \<noteq> conn \<longrightarrow>
        map_of (AList.delete conn (record_layers s)) c = map_of (record_layers s) c) \<and>
     (\<forall>f i c. c \<noteq> conn \<longrightarrow> map_of (frontends s) f = Some (i, c) \<longrightarrow>
        map_of (filter (\<lambda>p. fst p \<notin> snd ` set conns) (frontends s)) f = Some (i, c)) \<and>
     process_readable tn s (RecordLayerReady conn (ReceiveCritical e) # r) =
       process_readable tn
         (state_of (process_record_layer tn s conn (ReceiveCritical e))) r"
proof -
  have 1: "process_record_layer tn s conn (ReceiveCritical e) =
     Inr (s\<lparr>effects := effects s @ map (FrontClose \<circ> snd) conns @
              [TransportClose conn,
               Log WARNING (Text (critical_msg e)) ''record'' (Some conn)],
            frontends := filter (\<lambda>p. fst p \<notin> snd ` set conns) (frontends s),
            record_layers := AList.delete conn (record_layers s)\<rparr>)"
    using assms
    by (simp add: process_record_layer_def clean_record_layer_registered log_def emit_def)
  have 2: "map_of (AList.delete conn (record_layers s)) c = map_of (record_layers s) c"
    if "c \<noteq> conn" for c
    using that by (simp add: delete_conv')
  have 3: "map_of (filter (\<lambda>p. fst p \<notin> snd ` set conns) (frontends s)) f = Some (i, c)"
    if "c \<noteq> conn" "map_of (frontends s) f = Some (i, c)" for f i c
  proof -
    have "f \<notin> snd ` set conns"
    proof
      assume "f \<in> snd ` set conns"
      then have "f \<in> set (map snd conns)" by simp
      with consistent_values(2) [OF assms] that show False by auto
    qed
    with that(2) show ?thesis by (simp add: map_of_filter_fst)
  qed
  have 4: "process_readable tn s (RecordLayerReady conn (ReceiveCritical e) # r) =
       process_readable tn
         (state_of (process_record_layer tn s conn (ReceiveCritical e))) r"
    by (simp add: 1)
  from 1 2 3 4 show ?thesis by blast
qed

text \<open>The theorem at a wrong hash on record layer 0, which owns the frontends 1 and 2.\<close>

theorem critical_teardown_witness:
  "process_record_layer example_tunnel example_open 0 (ReceiveCritical HashfailError) =
     Inr \<lparr>unfinished = [],
          record_layers = [(3, [(1, 4)])],
          frontends = [(4, 1, 3)],
          next_obj = 5,
          effects = [FrontClose 1, FrontClose 2, TransportClose 0,
                     Log WARNING (Text ''detect a wrong hash'') ''record'' (Some 0)]\<rparr>"
  using critical_teardown [of example_open 0 "[(1, 1), (2, 2)]" example_tunnel HashfailError "[]"]
  by (simp add: consistent_def example_open_def conns_of_def)

text \<open>A batch is processed packet by packet until one raises.\<close>

lemma process_packets_append:
  "process_packets tn s conn (before @ rest) =
     (case process_packets tn s conn before of
        Inl x \<Rightarrow> Inl x
      | Inr s' \<Rightarrow> process_packets tn s' conn rest)"
  by (induction before arbitrary: s) (auto split: sum.splits)

text \<open>
  Without \<open>syn\<close>, each of the flags \<open>rst\<close>, \<open>dat\<close> and \<open>fin\<close> starts with
  the lookup \<open>conns[conn_id]\<close>.
\<close>

lemma process_packet_unopened:
  assumes "unpack_packet tn packet = (control, conn_id, data)"
    and "control AND syn (StatusControl tn) = 0"
    and "control AND rst (StatusControl tn) \<noteq> 0 \<or> control AND dat (StatusControl tn) \<noteq> 0 \<or>
         control AND fin (StatusControl tn) \<noteq> 0"
    and "map_of (record_layers s) conn = Some conns"
    and "map_of conns conn_id = None"
  shows "process_packet tn s conn packet env = Inl (KeyError, s)"
  using assms
  by (auto simp: process_packet_def process_packet_syn_def process_packet_dat_def
        process_packet_fin_def conns_of_Some)

text \<open>
  C10: a packet with \<open>rst\<close>, \<open>dat\<close> or \<open>fin\<close> and without \<open>syn\<close>, for an id
  that is not stored under the receiving record layer, raises \<open>KeyError\<close> and leaves
  the state as the packets before it made it. The exception leaves
  \<open>_process_record_layer\<close> and \<open>_process\<close>, so the packets after it in the batch
  are not processed (the result does not depend on them); the handler of \<open>run\<close> logs
  it and the loop makes its next turn.
\<close>

theorem unopened_id_raises:
  assumes "unpack_packet tn packet = (control, conn_id, data)"
    and "control AND syn (StatusControl tn) = 0"
    and "control AND rst (StatusControl tn) \<noteq> 0 \<or> control AND dat (StatusControl tn) \<noteq> 0 \<or>
         control AND fin (StatusControl tn) \<noteq> 0"
    and "process_packets tn s0 conn before = Inr s"
    and "map_of (record_layers s) conn = Some conns"
    and "map_of conns conn_id = None"
  shows "process_packet tn s conn packet env = Inl (KeyError, s) \<and>
     process_record_layer tn s0 conn (ReceivePackets (before @ (packet, env) # rest)) =
       Inl (KeyError, s) \<and>
     run_iteration tn s0
       (Selected (RecordLayerReady conn (ReceivePackets (before @ (packet, env) # rest)) # r) w) =
       Inr (log DEBUG Stack ''tunnel'' None
         (log ERROR (TextStr ''unknown exception occurred: '' KeyError) ''tunnel'' None s)) \<and>
     run_loop tn s0
       (Selected (RecordLayerReady conn (ReceivePackets (before @ (packet, env) # rest)) # r) w
          # turns) =
       run_loop tn
         (log DEBUG Stack ''tunnel'' None
           (log ERROR (TextStr ''unknown exception occurred: '' KeyError) ''tunnel'' None s))
         turns"
proof -
  have 1: "process_packet tn s conn packet env = Inl (KeyError, s)"
    using assms(1,2,3,5,6) by (rule process_packet_unopened)
  have 2: "process_record_layer tn s0 conn (ReceivePackets (before @ (packet, env) # rest)) =
       Inl (KeyError, s)"
    using assms(4) 1 by (simp add: process_record_layer_def process_packets_append)
  have 3: "run_iteration tn s0
       (Selected (RecordLayerReady conn (ReceivePackets (before @ (packet, env) # rest)) # r) w) =
       Inr (log DEBUG Stack ''tunnel'' None
         (log ERROR (TextStr ''unknown exception occurred: '' KeyError) ''tunnel'' None s))"
    using 2 by (simp add: run_iteration_def process_def)
  from 1 2 3 show ?thesis by simp
qed

text \<open>
  The theorem at a batch of three packets on record layer 0: \<open>fin\<close> for the id 2,
  \<open>rst\<close> for the id 2 (closed by now), \<open>fin\<close> for the id 1, which stays open.
\<close>

theorem unopened_id_raises_witness:
  "run_iteration example_tunnel example_open
     (Selected [RecordLayerReady 0 (ReceivePackets
        [(CHR 0x04 # CHR 0x02 # [], quiet), (CHR 0x08 # CHR 0x02 # [], quiet),
         (CHR 0x04 # CHR 0x01 # [], quiet)])] []) =
   Inr \<lparr>unfinished = [],
    record_layers = [(0, [(1, 1)]), (3, [(1, 4)])],
    frontends = [(1, 1, 0), (4, 1, 3)],
    next_obj = 5,
    effects = [FrontClose 2,
               Log ERROR (TextStr ''unknown exception occurred: '' KeyError) ''tunnel'' None,
               Log DEBUG Stack ''tunnel'' None]\<rparr>"
  using unopened_id_raises [of example_tunnel "[CHR 0x08, CHR 0x02]" 8 2 "[]" example_open 0
      "[(CHR 0x04 # CHR 0x02 # [], quiet)]"
      "\<lparr>unfinished = [],
        record_layers = [(0, [(1, 1)]), (3, [(1, 4)])],
        frontends = [(1, 1, 0), (4, 1, 3)],
        next_obj = 5, effects = [FrontClose 2]\<rparr>"
      "[(1, 1)]" quiet "[(CHR 0x04 # CHR 0x01 # [], quiet)]" "[]" "[]" "[]"]
  by (simp add: example_open_def example_tunnel_def example_unpack_def quiet_def
        process_packet_def process_packet_syn_def process_packet_dat_def process_packet_fin_def
        close_frontend_def conns_of_def emit_def log_def)

text \<open>The readable connections of a turn are served one by one until one raises.\<close>

lemma process_readable_append:
  "process_readable tn s (earlier @ later) =
     (case process_readable tn s earlier of
        Inl x \<Rightarrow> Inl x
      | Inr s' \<Rightarrow> process_readable tn s' later)"
  by (induction earlier arbitrary: s) (auto split: sum.splits)

text \<open>
  C2, as the code has it: a packet with \<open>dat\<close> and without \<open>syn\<close>, for an id that
  is not stored under the receiving record layer, raises \<open>KeyError\<close>. Nothing is sent
  to a frontend, and the dictionaries and \<open>unfinished\<close> are as they were before the
  packet; but the call does not return. Wherever the packet stands in its batch and the
  record layer in the list of readable connections, the exception reaches the handler of
  \<open>run\<close>, which logs it: the turn ends in the state before the packet with the two
  log entries added, whatever packets follow in the batch, whatever connections follow in
  the readable list and whatever connections are writable. Then the loop makes its next
  turn.
\<close>

theorem dat_unopened_raises:
  assumes "unpack_packet tn packet = (control, conn_id, data)"
    and "control AND dat (StatusControl tn) \<noteq> 0"
    and "control AND syn (StatusControl tn) = 0"
    and "process_readable tn s0 earlier = Inr s1"
    and "process_packets tn s1 conn before = Inr s"
    and "map_of (record_layers s) conn = Some conns"
    and "map_of conns conn_id = None"
  shows "process_packet tn s conn packet env = Inl (KeyError, s) \<and>
     run_iteration tn s0
       (Selected
          (earlier @ RecordLayerReady conn (ReceivePackets (before @ (packet, env) # rest)) # later)
          w) =
       Inr (s\<lparr>effects := effects s @
           [Log ERROR (TextStr ''unknown exception occurred: '' KeyError) ''tunnel'' None,
            Log DEBUG Stack ''tunnel'' None]\<rparr>) \<and>
     run_loop tn s0
       (Selected
          (earlier @ RecordLayerReady conn (ReceivePackets (before @ (packet, env) # rest)) # later)
          w # turns) =
       run_loop tn
         (s\<lparr>effects := effects s @
           [Log ERROR (TextStr ''unknown exception occurred: '' KeyError) ''tunnel'' None,
            Log DEBUG Stack ''tunnel'' None]\<rparr>)
         turns"
proof -
  have 1: "process_packet tn s conn packet env = Inl (KeyError, s)"
    using process_packet_unopened [OF assms(1,3) _ assms(6,7), of env] assms(2) by blast
  have 2: "process_record_layer tn s1 conn (ReceivePackets (before @ (packet, env) # rest)) =
       Inl (KeyError, s)"
    using assms(5) 1 by (simp add: process_record_layer_def process_packets_append)
  have 3: "process_readable tn s0
       (earlier @ RecordLayerReady conn (ReceivePackets (before @ (packet, env) # rest)) # later) =
       Inl (KeyError, s)"
    using assms(4) 2 by (simp add: process_readable_append)
  have 4: "run_iteration tn s0
       (Selected
          (earlier @ RecordLayerReady conn (ReceivePackets (before @ (packet, env) # rest)) # later)
          w) =
       Inr (s\<lparr>effects := effects s @
           [Log ERROR (TextStr ''unknown exception occurred: '' KeyError) ''tunnel'' None,
            Log DEBUG Stack ''tunnel'' None]\<rparr>)"
    using 3 by (simp add: run_iteration_def process_def log_def)
  from 1 4 show ?thesis by simp
qed

text \<open>
  The theorem at a turn on the state with two record layers: the frontend 4 is readable
  first and has no data, then record layer 0 delivers a \<open>fin\<close> for the id 2, a
  \<open>dat\<close> for the id 7, which is not open, and a \<open>fin\<close> for the id 1; the backend
  is readable after that, and the frontend 1 is writable. The frontend 2 is closed, and
  nothing after the \<open>dat\<close> packet is done.
\<close>

theorem dat_unopened_raises_witness:
  "run_iteration example_tunnel example_open
     (Selected
        [FrontendReady 4 (RecvData []) True,
         RecordLayerReady 0 (ReceivePackets
           [([CHR 0x04, CHR 0x02], quiet), (CHR 0x02 # CHR 0x07 # ''hi'', quiet),
            ([CHR 0x04, CHR 0x01], quiet)]),
         BackendReady]
        [(Frontend 1, True)]) =
   Inr \<lparr>unfinished = [],
    record_layers = [(0, [(1, 1)]), (3, [(1, 4)])],
    frontends = [(1, 1, 0), (4, 1, 3)],
    next_obj = 5,
    effects = [FrontClose 2,
               Log ERROR (TextStr ''unknown exception occurred: '' KeyError) ''tunnel'' None,
               Log DEBUG Stack ''tunnel'' None]\<rparr>"
  using dat_unopened_raises [of example_tunnel "CHR 0x02 # CHR 0x07 # ''hi''" 2 7 "''hi''"
      example_open "[FrontendReady 4 (RecvData []) True]" example_open 0
      "[([CHR 0x04, CHR 0x02], quiet)]"
      "\<lparr>unfinished = [],
        record_layers = [(0, [(1, 1)]), (3, [(1, 4)])],
        frontends = [(1, 1, 0), (4, 1, 3)],
        next_obj = 5, effects = [FrontClose 2]\<rparr>"
      "[(1, 1)]" quiet "[([CHR 0x04, CHR 0x01], quiet)]" "[BackendReady]" "[(Frontend 1, True)]"
      "[]"]
  by (simp add: example_open_def example_tunnel_def example_unpack_def quiet_def
        process_frontend_def process_packet_def process_packet_syn_def process_packet_dat_def
        process_packet_fin_def close_frontend_def conns_of_def emit_def)

text \<open>
  C2, as the spec has it (the packet is a no-op), fails: the call does not return the
  state it was given, and a batch that starts with such a packet does not do what the
  rest of the batch does alone (here the \<open>fin\<close> for the id 1 is lost).
\<close>

theorem dat_unopened_counterexample:
  "process_packet example_tunnel example_open 0 (CHR 0x02 # CHR 0x07 # ''hi'') quiet \<noteq>
     Inr example_open \<and>
   process_packets example_tunnel example_open 0
     [(CHR 0x02 # CHR 0x07 # ''hi'', quiet), ([CHR 0x04, CHR 0x01], quiet)] \<noteq>
   process_packets example_tunnel example_open 0 [([CHR 0x04, CHR 0x01], quiet)]"
  by (simp add: example_open_def example_tunnel_def example_unpack_def quiet_def
        process_packet_def process_packet_syn_def process_packet_dat_def process_packet_fin_def
        close_frontend_def conns_of_def emit_def)

text \<open>What the packet functions do to \<open>unfinished\<close>.\<close>

lemma count_list_distinct:
  "distinct xs \<Longrightarrow> x \<in> set xs \<Longrightarrow> count_list xs x = 1"
  by (induction xs) auto

lemma count_ObjectSet_add:
  "distinct xs \<Longrightarrow> count_list (ObjectSet_add c xs) c = 1"
  by (simp add: ObjectSet_add_def count_list_distinct)

lemma unfinished_close_frontend:
  "unfinished (state_of (close_frontend s f r)) = unfinished s"
  by (simp add: close_frontend_def Let_def split: option.splits)

lemma unfinished_process_packet_fin:
  "unfinished (state_of (process_packet_fin tn s conn control cid)) = unfinished s"
  by (simp add: process_packet_fin_def unfinished_close_frontend split: option.splits)

lemma unfinished_process_packet_dat:
  assumes "control AND dat (StatusControl tn) \<noteq> 0"
    and "map_of (conns_of s conn) cid = Some front"
    and "front_send env = Sent False"
  shows "unfinished (state_of (process_packet_dat tn s conn control cid data env)) =
     ObjectSet_add (Frontend front) (unfinished s)"
  using assms by (simp add: process_packet_dat_def Let_def unfinished_process_packet_fin)

text \<open>
  C9: \<open>unfinished\<close> holds a connection once. After \<open>send_packet\<close> of a record
  layer or \<open>send\<close> of a frontend (the frontend stored under the id, or the one just
  constructed for it) has reported an incomplete write, the connection is in
  \<open>unfinished\<close> exactly once, whether it was there before or not. A retry that is
  again incomplete leaves \<open>unfinished\<close> as it is. A retry that is complete removes the
  connection, so it is not in the list handed to \<open>select\<close> in the next turn, and
  removes nothing else.
\<close>

theorem pending_write_once:
  assumes "distinct (unfinished s)"
  shows "count_list (unfinished (send_packet tn s conn conn_id control data False))
       (RecordLayer conn) = 1 \<and>
     (unpack_packet tn packet = (control, conn_id, data) \<and>
      control AND rst (StatusControl tn) = 0 \<and> control AND syn (StatusControl tn) = 0 \<and>
      control AND dat (StatusControl tn) \<noteq> 0 \<and>
      map_of (record_layers s) conn = Some conns \<and> map_of conns conn_id = Some front \<and>
      front_send env = Sent False \<longrightarrow>
        count_list (unfinished (state_of (process_packet tn s conn packet env)))
          (Frontend front) = 1) \<and>
     (unpack_packet tn packet = (control, conn_id, data) \<and>
      control AND rst (StatusControl tn) = 0 \<and> control AND syn (StatusControl tn) \<noteq> 0 \<and>
      control AND dat (StatusControl tn) \<noteq> 0 \<and>
      map_of (record_layers s) conn = Some conns \<and> map_of conns conn_id = None \<and>
      new_frontend env = Constructed \<and> front_send env = Sent False \<longrightarrow>
        count_list (unfinished (state_of (process_packet tn s conn packet env)))
          (Frontend (next_obj s)) = 1) \<and>
     (c \<in> set (unfinished s) \<longrightarrow>
        (\<exists>s'. process_sending s c False = Inr s' \<and> unfinished s' = unfinished s \<and>
              count_list (unfinished s') c = 1)) \<and>
     (c \<in> set (unfinished s) \<longrightarrow>
        (\<exists>s'. process_sending s c True = Inr s' \<and> c \<notin> set (wlist s') \<and>
              set (wlist s') = set (wlist s) - {c} \<and> distinct (unfinished s')))"
proof -
  have 1: "count_list (unfinished (send_packet tn s conn conn_id control data False))
       (RecordLayer conn) = 1"
    using assms by (simp add: send_packet_def Let_def count_ObjectSet_add)
  have 2: "count_list (unfinished (state_of (process_packet tn s conn packet env)))
          (Frontend front) = 1"
    if "unpack_packet tn packet = (control, conn_id, data)"
      "control AND rst (StatusControl tn) = 0" "control AND syn (StatusControl tn) = 0"
      "control AND dat (StatusControl tn) \<noteq> 0"
      "map_of (record_layers s) conn = Some conns" "map_of conns conn_id = Some front"
      "front_send env = Sent False"
  proof -
    from that(5,6) have "map_of (conns_of s conn) conn_id = Some front"
      by (simp add: conns_of_Some)
    with that assms show ?thesis
      by (simp add: process_packet_def process_packet_syn_def unfinished_process_packet_dat
            count_ObjectSet_add)
  qed
  have 3: "count_list (unfinished (state_of (process_packet tn s conn packet env)))
          (Frontend (next_obj s)) = 1"
    if "unpack_packet tn packet = (control, conn_id, data)"
      "control AND rst (StatusControl tn) = 0" "control AND syn (StatusControl tn) \<noteq> 0"
      "control AND dat (StatusControl tn) \<noteq> 0"
      "map_of (record_layers s) conn = Some conns" "map_of conns conn_id = None"
      "new_frontend env = Constructed" "front_send env = Sent False"
  proof -
    let ?s3 = "s\<lparr>next_obj := Suc (next_obj s),
        record_layers := AList.update conn (AList.update conn_id (next_obj s) conns) (record_layers s),
        frontends := AList.update (next_obj s) (conn_id, conn) (frontends s)\<rparr>"
    have "map_of (conns_of ?s3 conn) conn_id = Some (next_obj s)"
      by (simp add: conns_of_def update_conv')
    from that(4) this that(8) have "unfinished (state_of (process_packet_dat tn ?s3 conn control conn_id data env)) =
        ObjectSet_add (Frontend (next_obj s)) (unfinished ?s3)"
      by (rule unfinished_process_packet_dat)
    with that assms show ?thesis
      by (simp add: process_packet_def process_packet_syn_def process_packet_new_def Let_def
            conns_of_Some count_ObjectSet_add)
  qed
  have 4: "\<exists>s'. process_sending s c False = Inr s' \<and> unfinished s' = unfinished s \<and>
              count_list (unfinished s') c = 1"
    if "c \<in> set (unfinished s)"
    using that assms by (simp add: process_sending_def Let_def count_list_distinct)
  have 5: "\<exists>s'. process_sending s c True = Inr s' \<and> c \<notin> set (wlist s') \<and>
              set (wlist s') = set (wlist s) - {c} \<and> distinct (unfinished s')"
    if "c \<in> set (unfinished s)"
    using that assms
    by (simp add: process_sending_def Let_def ObjectSet_remove_def wlist_def distinct_removeAll)
  from 1 2 3 4 5 show ?thesis by blast
qed

text \<open>
  The theorem at a state where the frontend 1 already waits: a second incomplete
  \<open>send\<close> on it, an incomplete \<open>send\<close> on a frontend opened by the same packet, an
  incomplete \<open>send_packet\<close>, and the two outcomes of a retry.
\<close>

theorem pending_write_once_witness:
  "distinct (unfinished example_pending) \<and>
   count_list (unfinished (send_packet example_tunnel example_pending 0 1 2 ''hi'' False))
     (RecordLayer 0) = 1 \<and>
   count_list (unfinished (state_of (process_packet example_tunnel example_pending 0
     (CHR 0x02 # CHR 0x01 # ''hi'') (quiet\<lparr>front_send := Sent False\<rparr>)))) (Frontend 1) = 1 \<and>
   count_list (unfinished (state_of (process_packet example_tunnel example_pending 0
     (CHR 0x03 # CHR 0x02 # ''hi'') (quiet\<lparr>front_send := Sent False\<rparr>)))) (Frontend 2) = 1 \<and>
   unfinished (state_of (process_sending example_pending (Frontend 1) False)) = [Frontend 1] \<and>
   Frontend 1 \<notin> set (wlist (state_of (process_sending example_pending (Frontend 1) True)))"
proof -
  have d: "distinct (unfinished example_pending)"
    by (simp add: example_pending_def)
  have p: "Frontend 1 \<in> set (unfinished example_pending)"
    by (simp add: example_pending_def)
  have u: "unfinished example_pending = [Frontend 1]"
    by (simp add: example_pending_def)
  have n: "next_obj example_pending = 2"
    by (simp add: example_pending_def)
  note w1 = pending_write_once [OF d, of example_tunnel 0 1 2 "''hi''"
      "CHR 0x02 # CHR 0x01 # ''hi''" "[(1, 1)]" 1 "quiet\<lparr>front_send := Sent False\<rparr>" "Frontend 1"]
  note w2 = pending_write_once [OF d, of example_tunnel 0 2 3 "''hi''"
      "CHR 0x03 # CHR 0x02 # ''hi''" "[(1, 1)]" 1 "quiet\<lparr>front_send := Sent False\<rparr>" "Frontend 1"]
  have 1: "count_list (unfinished (send_packet example_tunnel example_pending 0 1 2 ''hi'' False))
     (RecordLayer 0) = 1"
    using w1 [THEN conjunct1] .
  have 2: "count_list (unfinished (state_of (process_packet example_tunnel example_pending 0
     (CHR 0x02 # CHR 0x01 # ''hi'') (quiet\<lparr>front_send := Sent False\<rparr>)))) (Frontend 1) = 1"
    using w1 [THEN conjunct2, THEN conjunct1]
    by (simp add: example_pending_def example_tunnel_def example_unpack_def quiet_def)
  have 3: "count_list (unfinished (state_of (process_packet example_tunnel example_pending 0
     (CHR 0x03 # CHR 0x02 # ''hi'') (quiet\<lparr>front_send := Sent False\<rparr>)))) (Frontend 2) = 1"
    using w2 [THEN conjunct2, THEN conjunct2, THEN conjunct1] n
    by (simp add: example_pending_def example_tunnel_def example_unpack_def quiet_def)
  have 4: "unfinished (state_of (process_sending example_pending (Frontend 1) False)) = [Frontend 1]"
    using w1 [THEN conjunct2, THEN conjunct2, THEN conjunct2, THEN conjunct1] p u by auto
  have 5: "Frontend 1 \<notin> set (wlist (state_of (process_sending example_pending (Frontend 1) True)))"
  proof -
    from w1 [THEN conjunct2, THEN conjunct2, THEN conjunct2, THEN conjunct2] p
    obtain s' where "process_sending example_pending (Frontend 1) True = Inr s'"
      "Frontend 1 \<notin> set (wlist s')"
      by blast
    then show ?thesis by simp
  qed
  from d 1 2 3 4 5 show ?thesis by blast
qed

text \<open>
  After \<open>_clean_record_layer\<close> the registry holds nothing of the record layer, and
  closing every record layer empties it.
\<close>

lemma unreferenced_cleaned:
  assumes c: "consistent s" and rl: "map_of (record_layers s) conn = Some conns"
    and rl': "record_layers s' = AList.delete conn (record_layers s)"
    and fe': "frontends s' = filter (\<lambda>p. fst p \<notin> snd ` set conns) (frontends s)"
  shows "unreferenced conn (map snd conns) s'"
proof -
  have own: "\<exists>j. map_of (frontends s) f = Some (j, conn)" if "f \<in> snd ` set conns" for f
    using consistent_values(2) [OF c rl] that by auto
  have 1: "conn \<notin> fst ` set (AList.delete conn (record_layers s))"
    by (rule delete_notin_dom)
  have 2: "f \<notin> snd ` set conns"
    if "(c', cs) \<in> set (AList.delete conn (record_layers s))" "(i, f) \<in> set cs" for c' cs i f
  proof
    assume "f \<in> snd ` set conns"
    then have "\<exists>j. map_of (frontends s) f = Some (j, conn)" by (rule own)
    then obtain j where j: "map_of (frontends s) f = Some (j, conn)" ..
    from that(1) have m: "(c', cs) \<in> set (record_layers s)" "c' \<noteq> conn"
      by (auto simp: delete_filter)
    from c have "distinct (map fst (record_layers s))" by (rule consistent_distinct(1))
    then have mm: "map_of (record_layers s) c' = Some cs"
      using m(1) by (rule map_of_is_SomeI)
    with c have "distinct (map fst cs)" by (rule consistent_distinct(3))
    then have "map_of cs i = Some f"
      using that(2) by (rule map_of_is_SomeI)
    with c mm have "map_of (frontends s) f = Some (i, c')"
      by (rule consistent_forward)
    with j m(2) show False by simp
  qed
  have 3: "c' \<noteq> conn \<and> f \<notin> snd ` set conns"
    if "(f, i, c') \<in> set (filter (\<lambda>p. fst p \<notin> snd ` set conns) (frontends s))" for f i c'
  proof -
    from that have f: "(f, i, c') \<in> set (frontends s)" "f \<notin> snd ` set conns" by auto
    from c have "distinct (map fst (frontends s))" by (rule consistent_distinct(2))
    then have m: "map_of (frontends s) f = Some (i, c')"
      using f(1) by (rule map_of_is_SomeI)
    have "c' \<noteq> conn"
    proof
      assume "c' = conn"
      with consistent_backward [OF c m] rl have "map_of conns i = Some f" by auto
      then have "(i, f) \<in> set conns" by (rule map_of_SomeD)
      with f(2) show False by force
    qed
    with f(2) show ?thesis by simp
  qed
  have a: "\<forall>(c', cs) \<in> set (AList.delete conn (record_layers s)).
      \<forall>(i, f) \<in> set cs. f \<notin> set (map snd conns)"
  proof (intro ballI, clarify)
    fix c' cs i f
    assume "(c', cs) \<in> set (AList.delete conn (record_layers s))" "(i, f) \<in> set cs"
      "f \<in> set (map snd conns)"
    then show False using 2 [of c' cs i f] by simp
  qed
  have b: "\<forall>(f, i, c') \<in> set (filter (\<lambda>p. fst p \<notin> snd ` set conns) (frontends s)).
      c' \<noteq> conn \<and> f \<notin> set (map snd conns)"
  proof (intro ballI, clarify)
    fix f i c'
    assume "(f, i, c') \<in> set (filter (\<lambda>p. fst p \<notin> snd ` set conns) (frontends s))"
    then show "c' \<noteq> conn \<and> f \<notin> set (map snd conns)" using 3 [of f i c'] by simp
  qed
  show ?thesis
    unfolding unreferenced_def rl' fe' using 1 a b by (intro conjI)
qed

lemma consistent_no_record_layers:
  assumes "consistent s" "record_layers s = []"
  shows "frontends s = []"
proof (cases "frontends s")
  case (Cons p ps)
  obtain f i c where "p = (f, i, c)" by (cases p)
  with Cons assms(1) have "map_of (conns_of s c) i = Some f"
    by (simp add: consistent_def)
  with assms(2) show ?thesis by (simp add: conns_of_def)
qed simp

lemma run_close_all:
  "consistent s \<Longrightarrow> map fst (record_layers s) = ks \<Longrightarrow>
   \<exists>s'. run_close s ks = Inr s' \<and> record_layers s' = [] \<and> frontends s' = [] \<and>
        unfinished s' = unfinished s"
proof (induction ks arbitrary: s)
  case Nil
  then show ?case by (simp add: consistent_no_record_layers)
next
  case (Cons k ks)
  from Cons.prems(2) obtain cs rest where r: "record_layers s = (k, cs) # rest" "map fst rest = ks"
    by (cases "record_layers s") auto
  then have m: "map_of (record_layers s) k = Some cs" by simp
  let ?s1 = "s\<lparr>effects := effects s @ map (FrontClose \<circ> snd) cs,
            frontends := filter (\<lambda>p. fst p \<notin> snd ` set cs) (frontends s),
            record_layers := AList.delete k (record_layers s)\<rparr>"
  let ?s2 = "emit (TransportClose k) (emit (RecordLayerClose k) ?s1)"
  have cl: "clean_record_layer s k = Inr ?s1"
    using Cons.prems(1) m by (rule clean_record_layer_registered)
  have "consistent ?s1" using Cons.prems(1) m by (rule consistent_cleaned)
  then have c2: "consistent ?s2" by simp
  from Cons.prems(1) r have "k \<notin> fst ` set rest"
    by (force dest!: consistent_distinct(1))
  with r have "record_layers ?s2 = rest" by simp
  with r(2) have "map fst (record_layers ?s2) = ks" by simp
  with c2 obtain s' where "run_close ?s2 ks = Inr s'" "record_layers s' = []" "frontends s' = []"
    "unfinished s' = unfinished ?s2"
    using Cons.IH [of ?s2] by blast
  with cl show ?case by simp
qed

text \<open>
  C1, as the code has it: tearing down a registered record layer, by
  \<open>_clean_record_layer\<close> alone, after a critical exception or after the end of the
  stream, returns a state whose registry has no entry for the record layer and none for a
  frontend it owned; the teardown at the end of \<open>run\<close> leaves both dictionaries empty.
  None of the teardown paths touches \<open>unfinished\<close>: it is the same list after as
  before.
\<close>

theorem teardown_registry:
  assumes "consistent s"
    and "map_of (record_layers s) conn = Some conns"
  shows "(\<exists>s'. clean_record_layer s conn = Inr s' \<and>
            unreferenced conn (map snd conns) s' \<and> unfinished s' = unfinished s) \<and>
     (\<exists>s'. process_record_layer tn s conn (ReceiveCritical e) = Inr s' \<and>
            unreferenced conn (map snd conns) s' \<and> unfinished s' = unfinished s) \<and>
     (\<exists>s'. process_record_layer tn s conn ReceiveNone = Inr s' \<and>
            unreferenced conn (map snd conns) s' \<and> unfinished s' = unfinished s) \<and>
     (\<exists>s'. run_close s (map fst (record_layers s)) = Inr s' \<and>
            record_layers s' = [] \<and> frontends s' = [] \<and> unfinished s' = unfinished s)"
proof -
  let ?s1 = "s\<lparr>effects := effects s @ map (FrontClose \<circ> snd) conns,
        frontends := filter (\<lambda>p. fst p \<notin> snd ` set conns) (frontends s),
        record_layers := AList.delete conn (record_layers s)\<rparr>"
  have cl: "clean_record_layer s conn = Inr ?s1"
    using assms by (rule clean_record_layer_registered)
  have un: "unreferenced conn (map snd conns) s'"
    if "record_layers s' = record_layers ?s1" "frontends s' = frontends ?s1" for s'
    using assms
  proof (rule unreferenced_cleaned)
    show "record_layers s' = AList.delete conn (record_layers s)" using that(1) by simp
    show "frontends s' = filter (\<lambda>p. fst p \<notin> snd ` set conns) (frontends s)"
      using that(2) by simp
  qed
  have 1: "\<exists>s'. clean_record_layer s conn = Inr s' \<and>
            unreferenced conn (map snd conns) s' \<and> unfinished s' = unfinished s"
  proof (intro exI conjI)
    show "clean_record_layer s conn = Inr ?s1" by (rule cl)
    show "unreferenced conn (map snd conns) ?s1" by (rule un) simp_all
    show "unfinished ?s1 = unfinished s" by simp
  qed
  let ?s2 = "log WARNING (Text (critical_msg e)) ''record'' (Some conn)
      (emit (TransportClose conn) ?s1)"
  have 2: "\<exists>s'. process_record_layer tn s conn (ReceiveCritical e) = Inr s' \<and>
            unreferenced conn (map snd conns) s' \<and> unfinished s' = unfinished s"
  proof (intro exI conjI)
    show "process_record_layer tn s conn (ReceiveCritical e) = Inr ?s2"
      by (simp add: process_record_layer_def cl)
    show "unreferenced conn (map snd conns) ?s2" by (rule un) simp_all
    show "unfinished ?s2 = unfinished s" by simp
  qed
  let ?s3 = "log INFO (Text ''disconnected'') ''record'' (Some conn)
      (emit (TransportClose conn) (emit (RecordLayerClose conn) ?s1))"
  have 3: "\<exists>s'. process_record_layer tn s conn ReceiveNone = Inr s' \<and>
            unreferenced conn (map snd conns) s' \<and> unfinished s' = unfinished s"
  proof (intro exI conjI)
    show "process_record_layer tn s conn ReceiveNone = Inr ?s3"
      by (simp add: process_record_layer_def cl)
    show "unreferenced conn (map snd conns) ?s3" by (rule un) simp_all
    show "unfinished ?s3 = unfinished s" by simp
  qed
  have 4: "\<exists>s'. run_close s (map fst (record_layers s)) = Inr s' \<and>
            record_layers s' = [] \<and> frontends s' = [] \<and> unfinished s' = unfinished s"
    using assms(1) by (rule run_close_all) simp
  from 1 2 3 4 show ?thesis by blast
qed

text \<open>The theorem at a wrong hash on record layer 0, whose frontend 1 waits for sending.\<close>

theorem teardown_registry_witness:
  "unreferenced 0 [1]
     (state_of (process_record_layer example_tunnel example_pending 0 (ReceiveCritical HashfailError))) \<and>
   unfinished (state_of (process_record_layer example_tunnel example_pending 0
     (ReceiveCritical HashfailError))) = [Frontend 1]"
proof -
  have c: "consistent example_pending"
    by (simp add: consistent_def example_pending_def conns_of_def)
  have m: "map_of (record_layers example_pending) 0 = Some [(1, 1)]"
    by (simp add: example_pending_def)
  from teardown_registry [OF c m, of example_tunnel HashfailError, THEN conjunct2, THEN conjunct1]
  obtain s' where s':
    "process_record_layer example_tunnel example_pending 0 (ReceiveCritical HashfailError) = Inr s' \<and>
     unreferenced 0 (map snd [(1::int, 1::nat)]) s' \<and> unfinished s' = unfinished example_pending"
    by (rule exE)
  moreover have "unfinished example_pending = [Frontend 1]"
    by (simp add: example_pending_def)
  ultimately show ?thesis by simp
qed

text \<open>
  C1, as the spec has it (after teardown \<open>unfinished\<close> holds none of the former
  frontends), fails: the state reached by accepting a record layer and receiving a packet
  whose payload the new frontend takes only in part has the frontend 1 of record layer 0
  in \<open>unfinished\<close>, and it is still there after the record layer is torn down.
\<close>

theorem teardown_pending_counterexample:
  "run_loop example_tunnel init example_turns = Inr example_pending \<and>
   map_of (frontends example_pending) 1 = Some (1, 0) \<and>
   Frontend 1 \<in> set (unfinished (state_of
     (process_record_layer example_tunnel example_pending 0 (ReceiveCritical HashfailError))))"
  by (simp add: example_turns_def example_pending_def init_def example_tunnel_def
        example_unpack_def quiet_def run_iteration_def process_def process_backend_def
        process_record_layer_def process_packet_def process_packet_syn_def
        process_packet_new_def process_packet_dat_def process_packet_fin_def
        clean_record_layer_def close_frontend_def conns_of_def ObjectSet_add_def
        emit_def log_def Let_def)

text \<open>
  What the steps after the \<open>rst\<close> test append to \<open>effects\<close> (never a reset), and
  that they add no frontend but the one just constructed.
\<close>

lemma effects_close_frontend:
  "effects (state_of (close_frontend s f r)) =
     effects s @ [if r then FrontReset f else FrontClose f]"
  by (simp add: close_frontend_def Let_def split: option.splits)

lemma frontends_close_frontend:
  "map_of (frontends s) g = None \<Longrightarrow>
   map_of (frontends (state_of (close_frontend s f r))) g = None"
  by (simp add: close_frontend_def Let_def delete_conv' split: option.splits)

lemma effects_process_packet_fin:
  "\<exists>rest. effects (state_of (process_packet_fin tn s conn control cid)) = effects s @ rest \<and>
     (\<forall>f. FrontReset f \<notin> set rest)"
  by (simp add: process_packet_fin_def effects_close_frontend split: option.splits)

lemma frontends_process_packet_fin:
  "map_of (frontends s) g = None \<Longrightarrow>
   map_of (frontends (state_of (process_packet_fin tn s conn control cid))) g = None"
  by (simp add: process_packet_fin_def frontends_close_frontend split: option.splits)

lemma effects_process_packet_dat:
  "\<exists>rest. effects (state_of (process_packet_dat tn s conn control cid data env)) = effects s @ rest \<and>
     (\<forall>f. FrontReset f \<notin> set rest)"
proof -
  have "\<exists>rest. effects (state_of (process_packet_fin tn s1 conn control cid)) = effects s @ rest \<and>
      (\<forall>f. FrontReset f \<notin> set rest)"
    if "effects s1 = effects s @ [FrontSend g data]" for s1 g
  proof -
    from effects_process_packet_fin [of tn s1 conn control cid] obtain rest where
      "effects (state_of (process_packet_fin tn s1 conn control cid)) = effects s1 @ rest"
      "\<forall>f. FrontReset f \<notin> set rest" by blast
    with that have "effects (state_of (process_packet_fin tn s1 conn control cid)) =
        effects s @ (FrontSend g data # rest) \<and> (\<forall>f. FrontReset f \<notin> set (FrontSend g data # rest))"
      by simp
    then show ?thesis by blast
  qed
  then show ?thesis
    by (simp add: process_packet_dat_def Let_def effects_process_packet_fin
          split: option.splits send_result.splits)
qed

lemma frontends_process_packet_dat:
  "map_of (frontends s) g = None \<Longrightarrow>
   map_of (frontends (state_of (process_packet_dat tn s conn control cid data env))) g = None"
  by (simp add: process_packet_dat_def Let_def frontends_process_packet_fin
        split: option.splits send_result.splits)

lemma effects_process_packet_new:
  "\<exists>rest. effects (state_of (process_packet_new tn s conn control cid data env)) = effects s @ rest \<and>
     (\<forall>f. FrontReset f \<notin> set rest)"
proof (cases "new_frontend env")
  case Constructed
  let ?s3 = "s\<lparr>next_obj := Suc (next_obj s),
      record_layers := AList.update conn (AList.update cid (next_obj s) (conns_of s conn))
        (record_layers s),
      frontends := AList.update (next_obj s) (cid, conn) (frontends s)\<rparr>"
  from effects_process_packet_dat [of tn ?s3 conn control cid data env]
  have "\<exists>rest. effects (state_of (process_packet_dat tn ?s3 conn control cid data env)) =
      effects s @ rest \<and> (\<forall>f. FrontReset f \<notin> set rest)"
    by simp
  with Constructed show ?thesis
    by (simp add: process_packet_new_def Let_def)
next
  case (FrontendUnavailableError m)
  then show ?thesis
    by (simp add: process_packet_new_def send_packet_def Let_def)
qed

lemma frontends_process_packet_new:
  assumes "map_of (frontends s) g = None" "g \<noteq> next_obj s"
  shows "map_of (frontends (state_of (process_packet_new tn s conn control cid data env))) g = None"
proof (cases "new_frontend env")
  case Constructed
  let ?s3 = "s\<lparr>next_obj := Suc (next_obj s),
      record_layers := AList.update conn (AList.update cid (next_obj s) (conns_of s conn))
        (record_layers s),
      frontends := AList.update (next_obj s) (cid, conn) (frontends s)\<rparr>"
  have "map_of (frontends ?s3) g = None"
    using assms by (simp add: update_conv')
  then have "map_of (frontends (state_of (process_packet_dat tn ?s3 conn control cid data env))) g = None"
    by (rule frontends_process_packet_dat)
  with Constructed show ?thesis
    by (simp add: process_packet_new_def Let_def)
next
  case (FrontendUnavailableError m)
  with assms(1) show ?thesis
    by (simp add: process_packet_new_def send_packet_def Let_def)
qed

text \<open>
  C4: a packet with \<open>syn\<close> (and without \<open>rst\<close>) for an id under which a frontend
  is stored: the old frontend is closed (\<open>close\<close>, not \<open>reset\<close>) and removed from
  both dictionaries, and only then the packet goes on as for an id that is not open, from
  the state without the old frontend. The first call the packet makes is that
  \<open>close\<close>, the old frontend is never reset and is not a key of \<open>frontends\<close> when
  the packet is done. After the packet, and in every state that the loop of \<open>run\<close>
  reaches from the initial state, no two frontends are stored under the same record layer
  and id.
\<close>

theorem syn_reuse:
  assumes "consistent s"
    and "unpack_packet tn packet = (control, conn_id, data)"
    and "control AND rst (StatusControl tn) = 0"
    and "control AND syn (StatusControl tn) \<noteq> 0"
    and "map_of (record_layers s) conn = Some conns"
    and "map_of conns conn_id = Some old"
  shows "process_packet tn s conn packet env =
       process_packet_new tn
         (s\<lparr>effects := effects s @ [FrontClose old],
            frontends := AList.delete old (frontends s),
            record_layers := AList.update conn (AList.delete conn_id conns) (record_layers s)\<rparr>)
         conn control conn_id data env \<and>
     (\<exists>rest. effects (state_of (process_packet tn s conn packet env)) =
          effects s @ FrontClose old # rest \<and> FrontReset old \<notin> set rest) \<and>
     map_of (frontends (state_of (process_packet tn s conn packet env))) old = None \<and>
     (\<forall>f g i c.
        map_of (frontends (state_of (process_packet tn s conn packet env))) f = Some (i, c) \<and>
        map_of (frontends (state_of (process_packet tn s conn packet env))) g = Some (i, c) \<longrightarrow>
        f = g) \<and>
     (\<forall>turns f g i c.
        map_of (frontends (state_of (run_loop tn init turns))) f = Some (i, c) \<and>
        map_of (frontends (state_of (run_loop tn init turns))) g = Some (i, c) \<longrightarrow>
        f = g)"
proof -
  let ?s1 = "s\<lparr>effects := effects s @ [FrontClose old],
            frontends := AList.delete old (frontends s),
            record_layers := AList.update conn (AList.delete conn_id conns) (record_layers s)\<rparr>"
  let ?R = "process_packet tn s conn packet env"
  have co: "conns_of s conn = conns" using assms(5) by (rule conns_of_Some)
  have f: "map_of (frontends s) old = Some (conn_id, conn)"
    using assms(1,5,6) by (rule consistent_forward)
  have cl: "close_frontend s old False = Inr ?s1"
    using close_frontend_registered [OF assms(1) f, of False] by (simp add: co)
  have 1: "?R = process_packet_new tn ?s1 conn control conn_id data env"
    using assms(2-6) cl by (simp add: process_packet_def process_packet_syn_def co)
  obtain rest where rest:
    "effects (state_of (process_packet_new tn ?s1 conn control conn_id data env)) =
       effects ?s1 @ rest" "\<forall>f. FrontReset f \<notin> set rest"
    using effects_process_packet_new [of tn ?s1 conn control conn_id data env] by blast
  have 2: "\<exists>rest. effects (state_of ?R) = effects s @ FrontClose old # rest \<and>
      FrontReset old \<notin> set rest"
  proof (intro exI conjI)
    show "effects (state_of ?R) = effects s @ FrontClose old # rest"
      using rest(1) by (simp add: 1)
    show "FrontReset old \<notin> set rest" using rest(2) by simp
  qed
  have "old < next_obj s" using assms(1) f by (rule consistent_fresh)
  then have "old \<noteq> next_obj ?s1" by simp
  moreover have "map_of (frontends ?s1) old = None" by (simp add: delete_conv')
  ultimately have 3: "map_of (frontends (state_of ?R)) old = None"
    unfolding 1 by (intro frontends_process_packet_new)
  have c: "consistent (state_of ?R)" using assms(1) by (rule consistent_process_packet)
  have 4: "\<forall>f g i c.
        map_of (frontends (state_of ?R)) f = Some (i, c) \<and>
        map_of (frontends (state_of ?R)) g = Some (i, c) \<longrightarrow> f = g"
    using consistent_unique [OF c] by blast
  have 5: "\<forall>turns f g i c.
        map_of (frontends (state_of (run_loop tn init turns))) f = Some (i, c) \<and>
        map_of (frontends (state_of (run_loop tn init turns))) g = Some (i, c) \<longrightarrow> f = g"
    using consistent_unique [OF consistent_run_loop [OF consistent_init]] by blast
  from 1 2 3 4 5 show ?thesis by (intro conjI)
qed

text \<open>
  The theorem at a packet with \<open>syn\<close> and \<open>dat\<close> for the id 1 of record layer 0,
  where the frontend 1 is stored: it is closed, and the new frontend 5 takes its place
  and the payload.
\<close>

theorem syn_reuse_witness:
  "process_packet example_tunnel example_open 0 (CHR 0x03 # CHR 0x01 # ''hi'') quiet =
     Inr \<lparr>unfinished = [],
          record_layers = [(0, [(2, 2), (1, 5)]), (3, [(1, 4)])],
          frontends = [(2, 2, 0), (4, 1, 3), (5, 1, 0)],
          next_obj = 6, effects = [FrontClose 1, FrontSend 5 ''hi'']\<rparr>"
proof -
  have c: "consistent example_open"
    by (simp add: consistent_def example_open_def conns_of_def)
  have u: "unpack_packet example_tunnel (CHR 0x03 # CHR 0x01 # ''hi'') = (3, 1, ''hi'')"
    by (simp add: example_tunnel_def example_unpack_def)
  have r: "3 AND rst (StatusControl example_tunnel) = 0"
    by (simp add: example_tunnel_def)
  have y: "3 AND syn (StatusControl example_tunnel) \<noteq> 0"
    by (simp add: example_tunnel_def)
  have m: "map_of (record_layers example_open) 0 = Some [(1, 1), (2, 2)]"
    by (simp add: example_open_def)
  have o: "map_of [(1::int, 1::nat), (2, 2)] 1 = Some 1"
    by simp
  from syn_reuse [OF c u r y m o, of quiet, THEN conjunct1] show ?thesis
    by (simp add: example_open_def example_tunnel_def quiet_def process_packet_new_def
          process_packet_dat_def process_packet_fin_def conns_of_def emit_def Let_def)
qed

end
